theory Spec2Isabelle
  imports Main "HOL-Library.Sublist" "HOL-Library.Multiset"
begin

section \<open>The scheduler of final_scheduler.py\<close>

subsection \<open>Class constants\<close>

definition DAYS :: "string list" where
  "DAYS = [''Monday'', ''Tuesday'', ''Wednesday'', ''Thursday'', ''Friday'',
           ''Saturday'', ''Sunday'']"

definition SHIFTS :: "string list" where
  "SHIFTS = [''Morning'', ''Afternoon'', ''Evening'']"

definition MAX_DAYS_PER_WEEK :: int where
  "MAX_DAYS_PER_WEEK = 5"

definition MIN_EMPLOYEES_PER_SHIFT :: int where
  "MIN_EMPLOYEES_PER_SHIFT = 2"

subsection \<open>Data\<close>

text \<open>
  Every failure of the class is a Python \<open>KeyError\<close>. The model tags it with the
  dictionary whose lookup failed: \<open>self.preferences[employee]\<close>,
  \<open>self.schedule[day]\<close> or \<open>self.schedule[day][shift]\<close>; the argument is the key.
\<close>

datatype error = UnknownEmployee string | UnknownDay string | UnknownShift string

text \<open>
  A preference plan is the dictionary \<open>{day: [shift, ...]}\<close> handed to
  \<open>add_employee\<close>, kept as an association list in insertion order and read with
  \<open>map_of\<close>.
\<close>

type_synonym plan = "(string \<times> string list) list"

text \<open>
  The four attributes set by \<open>__init__\<close>. \<open>employee_days_worked\<close> is a
  \<open>defaultdict(int)\<close>: a total function whose default is 0.
\<close>

record scheduler =
  employees :: "string list"
  preferences :: "string \<rightharpoonup> plan"
  schedule :: "string \<rightharpoonup> (string \<rightharpoonup> string list)"
  employee_days_worked :: "string \<Rightarrow> int"

text \<open>Outcome of one iteration of a loop whose body may \<open>break\<close>.\<close>

datatype flow = Next | Break

text \<open>
  Pass 3 iterates over a Python \<open>set\<close> of day names, once for every employee. The
  language fixes no order for such an iteration, and two sets with the same elements may
  be visited in different orders in one run. The model therefore takes the orders as a
  parameter, one for each loop: \<open>it k\<close> is the order in which the loop of the employee at
  position \<open>k\<close> of the employee list visits its set, given as a function from the
  elements of the set (listed without repetition) to the sequence of visits. The only
  thing known about it is that it enumerates the set.
\<close>

type_synonym set_order = "string list \<Rightarrow> string list"

type_synonym pass3_order = "nat \<Rightarrow> set_order"

definition enumerates :: "set_order \<Rightarrow> bool" where
  "enumerates ord = (\<forall>xs. mset (ord xs) = mset xs)"

definition iteration_order :: "pass3_order \<Rightarrow> bool" where
  "iteration_order it = (\<forall>k. enumerates (it k))"

subsection \<open>Construction\<close>

definition init :: scheduler where
  "init = \<lparr> employees = [],
            preferences = Map.empty,
            schedule = map_of (map (\<lambda>day. (day, map_of (map (\<lambda>shift. (shift, [])) SHIFTS))) DAYS),
            employee_days_worked = (\<lambda>_. 0) \<rparr>"

definition add_employee :: "scheduler \<Rightarrow> string \<Rightarrow> plan \<Rightarrow> scheduler" where
  "add_employee s name shift_preferences =
     (if name \<notin> set (employees s)
      then s\<lparr> employees := employees s @ [name],
              preferences := (preferences s)(name \<mapsto> shift_preferences) \<rparr>
      else s)"

text \<open>A scheduler built only by \<open>__init__\<close> and a sequence of \<open>add_employee\<close> calls.\<close>

fun build :: "scheduler \<Rightarrow> (string \<times> plan) list \<Rightarrow> scheduler" where
  "build s [] = s"
| "build s ((name, shift_preferences) # rest) = build (add_employee s name shift_preferences) rest"

subsection \<open>Reading and writing the schedule\<close>

text \<open>\<open>self.schedule[day][shift]\<close>\<close>

definition slot :: "scheduler \<Rightarrow> string \<Rightarrow> string \<Rightarrow> error + string list" where
  "slot s day shift =
     (case schedule s day of
        None \<Rightarrow> Inl (UnknownDay day)
      | Some row \<Rightarrow>
          (case row shift of
             None \<Rightarrow> Inl (UnknownShift shift)
           | Some xs \<Rightarrow> Inr xs))"

text \<open>\<open>any(employee in self.schedule[day][shift] for shift in shifts)\<close>, left to right,
  stopping at the first hit.\<close>

fun scheduled_in :: "scheduler \<Rightarrow> string \<Rightarrow> string \<Rightarrow> string list \<Rightarrow> error + bool" where
  "scheduled_in s employee day [] = Inr False"
| "scheduled_in s employee day (shift # shifts) =
     (case slot s day shift of
        Inl e \<Rightarrow> Inl e
      | Inr xs \<Rightarrow> if employee \<in> set xs then Inr True
                 else scheduled_in s employee day shifts)"

definition already_scheduled :: "scheduler \<Rightarrow> string \<Rightarrow> string \<Rightarrow> error + bool" where
  "already_scheduled s employee day = scheduled_in s employee day SHIFTS"

text \<open>\<open>self.schedule[day][shift].append(employee)\<close> followed by
  \<open>self.employee_days_worked[employee] += 1\<close>: the only mutation of the three passes.\<close>

definition place :: "scheduler \<Rightarrow> string \<Rightarrow> string \<Rightarrow> string \<Rightarrow> error + scheduler" where
  "place s day shift employee =
     (case schedule s day of
        None \<Rightarrow> Inl (UnknownDay day)
      | Some row \<Rightarrow>
          (case row shift of
             None \<Rightarrow> Inl (UnknownShift shift)
           | Some xs \<Rightarrow>
               Inr (s\<lparr> schedule := (schedule s)(day \<mapsto> row(shift \<mapsto> xs @ [employee])),
                        employee_days_worked :=
                          (employee_days_worked s)(employee := employee_days_worked s employee + 1) \<rparr>)))"

subsection \<open>Pass 1: preferred shifts\<close>

text \<open>The body of the day loop of \<open>assign_shifts\<close> for one employee and one day.\<close>

definition pass1_day :: "scheduler \<Rightarrow> string \<Rightarrow> string \<Rightarrow> error + (flow \<times> scheduler)" where
  "pass1_day s employee day =
     (if employee_days_worked s employee \<ge> MAX_DAYS_PER_WEEK then Inr (Break, s)
      else
        (case preferences s employee of
           None \<Rightarrow> Inl (UnknownEmployee employee)
         | Some plan \<Rightarrow>
             (case map_of plan day of
                None \<Rightarrow> Inr (Next, s)
              | Some preferred_shifts \<Rightarrow>
                  (case already_scheduled s employee day of
                     Inl e \<Rightarrow> Inl e
                   | Inr True \<Rightarrow> Inr (Next, s)
                   | Inr False \<Rightarrow>
                       (case preferred_shifts of
                          [] \<Rightarrow> Inr (Break, s)
                        | preferred_shift # _ \<Rightarrow>
                            (case place s day preferred_shift employee of
                               Inl e \<Rightarrow> Inl e
                             | Inr s' \<Rightarrow> Inr (Next, s')))))))"

fun pass1_days :: "scheduler \<Rightarrow> string \<Rightarrow> string list \<Rightarrow> error + scheduler" where
  "pass1_days s employee [] = Inr s"
| "pass1_days s employee (day # days) =
     (case pass1_day s employee day of
        Inl e \<Rightarrow> Inl e
      | Inr (Break, s') \<Rightarrow> Inr s'
      | Inr (Next, s') \<Rightarrow> pass1_days s' employee days)"

fun pass1 :: "scheduler \<Rightarrow> string list \<Rightarrow> error + scheduler" where
  "pass1 s [] = Inr s"
| "pass1 s (employee # rest) =
     (case pass1_days s employee DAYS of
        Inl e \<Rightarrow> Inl e
      | Inr s' \<Rightarrow> pass1 s' rest)"

subsection \<open>Pass 2: minimum coverage\<close>

text \<open>The \<open>for employee in self.employees\<close> scan inside the while loop: \<open>Some\<close> of the
  new state when somebody was assigned, \<open>None\<close> when the scan ended with
  \<open>assigned = False\<close>.\<close>

fun find_available :: "scheduler \<Rightarrow> string \<Rightarrow> string \<Rightarrow> string list \<Rightarrow> error + scheduler option" where
  "find_available s day shift [] = Inr None"
| "find_available s day shift (employee # rest) =
     (if employee_days_worked s employee \<ge> MAX_DAYS_PER_WEEK
      then find_available s day shift rest
      else
        (case already_scheduled s employee day of
           Inl e \<Rightarrow> Inl e
         | Inr True \<Rightarrow> find_available s day shift rest
         | Inr False \<Rightarrow>
             (case slot s day shift of
                Inl e \<Rightarrow> Inl e
              | Inr xs \<Rightarrow>
                  if employee \<notin> set xs
                  then (case place s day shift employee of
                          Inl e \<Rightarrow> Inl e
                        | Inr s' \<Rightarrow> Inr (Some s'))
                  else find_available s day shift rest)))"

text \<open>The while loop on \<open>current_count\<close>.\<close>

function backfill :: "scheduler \<Rightarrow> string \<Rightarrow> string \<Rightarrow> int \<Rightarrow> error + scheduler" where
  "backfill s day shift current_count =
     (if current_count < MIN_EMPLOYEES_PER_SHIFT
      then (case find_available s day shift (employees s) of
              Inl e \<Rightarrow> Inl e
            | Inr None \<Rightarrow> Inr s
            | Inr (Some s') \<Rightarrow> backfill s' day shift (current_count + 1))
      else Inr s)"
  by pat_completeness auto
termination
  by (relation "measure (\<lambda>(s, day, shift, current_count). nat (MIN_EMPLOYEES_PER_SHIFT - current_count))")
     auto

declare backfill.simps [simp del]

fun coverage_shifts :: "scheduler \<Rightarrow> string \<Rightarrow> string list \<Rightarrow> error + scheduler" where
  "coverage_shifts s day [] = Inr s"
| "coverage_shifts s day (shift # shifts) =
     (case slot s day shift of
        Inl e \<Rightarrow> Inl e
      | Inr xs \<Rightarrow>
          (case backfill s day shift (int (length xs)) of
             Inl e \<Rightarrow> Inl e
           | Inr s' \<Rightarrow> coverage_shifts s' day shifts))"

fun coverage_days :: "scheduler \<Rightarrow> string list \<Rightarrow> error + scheduler" where
  "coverage_days s [] = Inr s"
| "coverage_days s (day # days) =
     (case coverage_shifts s day SHIFTS of
        Inl e \<Rightarrow> Inl e
      | Inr s' \<Rightarrow> coverage_days s' days)"

definition ensure_minimum_coverage :: "scheduler \<Rightarrow> error + scheduler" where
  "ensure_minimum_coverage s = coverage_days s DAYS"

subsection \<open>Pass 3: conflict resolution\<close>

text \<open>The nested loop that fills \<open>scheduled_days\<close>; the set is kept as a list without
  repetition.\<close>

fun collect_shifts :: "scheduler \<Rightarrow> string \<Rightarrow> string \<Rightarrow> string list \<Rightarrow> string list \<Rightarrow> error + string list" where
  "collect_shifts s employee day [] scheduled_days = Inr scheduled_days"
| "collect_shifts s employee day (shift # shifts) scheduled_days =
     (case slot s day shift of
        Inl e \<Rightarrow> Inl e
      | Inr xs \<Rightarrow>
          collect_shifts s employee day shifts
            (if employee \<in> set xs then List.insert day scheduled_days else scheduled_days))"

fun collect_days :: "scheduler \<Rightarrow> string \<Rightarrow> string list \<Rightarrow> string list \<Rightarrow> error + string list" where
  "collect_days s employee [] scheduled_days = Inr scheduled_days"
| "collect_days s employee (day # days) scheduled_days =
     (case collect_shifts s employee day SHIFTS scheduled_days of
        Inl e \<Rightarrow> Inl e
      | Inr scheduled_days' \<Rightarrow> collect_days s employee days scheduled_days')"

text \<open>\<open>for shift in priority_shifts\<close>: \<open>Some\<close> of the new state when the employee was
  placed, \<open>None\<close> when the loop ended without a placement.\<close>

fun try_shifts :: "scheduler \<Rightarrow> string \<Rightarrow> string \<Rightarrow> string list \<Rightarrow> error + scheduler option" where
  "try_shifts s employee day [] = Inr None"
| "try_shifts s employee day (shift # shifts) =
     (case slot s day shift of
        Inl e \<Rightarrow> Inl e
      | Inr xs \<Rightarrow>
          if employee \<notin> set xs
          then (case place s day shift employee of
                  Inl e \<Rightarrow> Inl e
                | Inr s' \<Rightarrow> Inr (Some s'))
          else try_shifts s employee day shifts)"

text \<open>\<open>self.preferences[employee].get(day, self.SHIFTS)\<close>\<close>

definition priority_shifts :: "scheduler \<Rightarrow> string \<Rightarrow> string \<Rightarrow> error + string list" where
  "priority_shifts s employee day =
     (case preferences s employee of
        None \<Rightarrow> Inl (UnknownEmployee employee)
      | Some plan \<Rightarrow>
          (case map_of plan day of
             None \<Rightarrow> Inr SHIFTS
           | Some shifts \<Rightarrow> Inr shifts))"

text \<open>The body of \<open>for day in missing_days\<close>; it returns the state and
  \<open>scheduled_days\<close>.\<close>

definition resolve_day ::
  "scheduler \<Rightarrow> string \<Rightarrow> string list \<Rightarrow> string \<Rightarrow> error + (flow \<times> scheduler \<times> string list)" where
  "resolve_day s employee scheduled_days day =
     (if employee_days_worked s employee \<ge> MAX_DAYS_PER_WEEK then Inr (Break, s, scheduled_days)
      else if day \<in> set scheduled_days then Inr (Next, s, scheduled_days)
      else
        (case priority_shifts s employee day of
           Inl e \<Rightarrow> Inl e
         | Inr shifts \<Rightarrow>
             (case try_shifts s employee day shifts of
                Inl e \<Rightarrow> Inl e
              | Inr None \<Rightarrow> Inr (Next, s, scheduled_days)
              | Inr (Some s') \<Rightarrow> Inr (Next, s', List.insert day scheduled_days))))"

fun resolve_days :: "scheduler \<Rightarrow> string \<Rightarrow> string list \<Rightarrow> string list \<Rightarrow> error + scheduler" where
  "resolve_days s employee scheduled_days [] = Inr s"
| "resolve_days s employee scheduled_days (day # days) =
     (case resolve_day s employee scheduled_days day of
        Inl e \<Rightarrow> Inl e
      | Inr (Break, s', scheduled_days') \<Rightarrow> Inr s'
      | Inr (Next, s', scheduled_days') \<Rightarrow> resolve_days s' employee scheduled_days' days)"

text \<open>\<open>missing_days = preferred_days - scheduled_days\<close>, the elements of the set.\<close>

definition missing_days :: "plan \<Rightarrow> string list \<Rightarrow> string list" where
  "missing_days plan scheduled_days =
     filter (\<lambda>day. day \<notin> set scheduled_days) (remdups (map fst plan))"

text \<open>The body of \<open>for employee in self.employees\<close>, with the order \<open>ord\<close> in which
  this employee's \<open>for day in missing_days\<close> visits the set.\<close>

definition resolve_employee :: "set_order \<Rightarrow> scheduler \<Rightarrow> string \<Rightarrow> error + scheduler" where
  "resolve_employee ord s employee =
     (case preferences s employee of
        None \<Rightarrow> Inl (UnknownEmployee employee)
      | Some plan \<Rightarrow>
          (case collect_days s employee DAYS [] of
             Inl e \<Rightarrow> Inl e
           | Inr scheduled_days \<Rightarrow>
               resolve_days s employee scheduled_days (ord (missing_days plan scheduled_days))))"

text \<open>The loop over the employees; \<open>k\<close> is the position of the next employee.\<close>

fun resolve_loop :: "pass3_order \<Rightarrow> nat \<Rightarrow> scheduler \<Rightarrow> string list \<Rightarrow> error + scheduler" where
  "resolve_loop it k s [] = Inr s"
| "resolve_loop it k s (employee # rest) =
     (case resolve_employee (it k) s employee of
        Inl e \<Rightarrow> Inl e
      | Inr s' \<Rightarrow> resolve_loop it (Suc k) s' rest)"

definition resolve_conflicts :: "pass3_order \<Rightarrow> scheduler \<Rightarrow> error + scheduler" where
  "resolve_conflicts it s = resolve_loop it 0 s (employees s)"

text \<open>Pass 3 as the interpreter may run it: at every employee the set of missing days is
  visited in some order that enumerates it, chosen freely and anew for each employee. The
  third argument is the outcome, a state or the error raised.\<close>

inductive pass3_runs :: "scheduler \<Rightarrow> string list \<Rightarrow> error + scheduler \<Rightarrow> bool" where
  finished: "pass3_runs s [] (Inr s)"
| raises: "enumerates ord \<Longrightarrow> resolve_employee ord s employee = Inl e \<Longrightarrow>
     pass3_runs s (employee # rest) (Inl e)"
| goes_on: "enumerates ord \<Longrightarrow> resolve_employee ord s employee = Inr s' \<Longrightarrow>
     pass3_runs s' rest r \<Longrightarrow> pass3_runs s (employee # rest) r"

subsection \<open>The three passes\<close>

definition assign_shifts :: "pass3_order \<Rightarrow> scheduler \<Rightarrow> error + scheduler" where
  "assign_shifts it s =
     (case pass1 s (employees s) of
        Inl e \<Rightarrow> Inl e
      | Inr s1 \<Rightarrow>
          (case ensure_minimum_coverage s1 of
             Inl e \<Rightarrow> Inl e
           | Inr s2 \<Rightarrow> resolve_conflicts it s2))"

text \<open>\<open>assign_shifts\<close> with the free choice of orders in Pass 3.\<close>

definition assign_runs :: "scheduler \<Rightarrow> error + scheduler \<Rightarrow> bool" where
  "assign_runs s r =
     (case pass1 s (employees s) of
        Inl e \<Rightarrow> r = Inl e
      | Inr s1 \<Rightarrow>
          (case ensure_minimum_coverage s1 of
             Inl e \<Rightarrow> r = Inl e
           | Inr s2 \<Rightarrow> pass3_runs s2 (employees s2) r))"

section \<open>Specification vocabulary\<close>

subsection \<open>Schedules and rosters\<close>

text \<open>The keys of \<open>self.schedule\<close> are the seven days, and the keys of every row are the
  three shifts, as \<open>__init__\<close> builds them.\<close>

definition wf_schedule :: "scheduler \<Rightarrow> bool" where
  "wf_schedule s =
     ((\<forall>day. (schedule s day \<noteq> None) = (day \<in> set DAYS)) \<and>
      (\<forall>day row shift. schedule s day = Some row \<longrightarrow> (row shift \<noteq> None) = (shift \<in> set SHIFTS)))"

text \<open>The employee list of a slot; empty for a key the schedule does not have.\<close>

definition roster :: "scheduler \<Rightarrow> string \<Rightarrow> string \<Rightarrow> string list" where
  "roster s day shift = (case slot s day shift of Inl _ \<Rightarrow> [] | Inr xs \<Rightarrow> xs)"

text \<open>The employee is in the list of some shift of the day.\<close>

definition works_on :: "scheduler \<Rightarrow> string \<Rightarrow> string \<Rightarrow> bool" where
  "works_on s employee day = (\<exists>shift \<in> set SHIFTS. employee \<in> set (roster s day shift))"

subsection \<open>Guarded placements\<close>

text \<open>One assignment as the three passes make it: a slot of the grid, an employee below the
  cap who is in no shift of that day.\<close>

definition assigns :: "scheduler \<Rightarrow> scheduler \<Rightarrow> bool" where
  "assigns s s' =
     (\<exists>day shift employee.
        day \<in> set DAYS \<and> shift \<in> set SHIFTS \<and>
        employee_days_worked s employee < MAX_DAYS_PER_WEEK \<and>
        \<not> works_on s employee day \<and>
        place s day shift employee = Inr s')"

text \<open>Any number of such assignments, one after the other.\<close>

definition reaches :: "scheduler \<Rightarrow> scheduler \<Rightarrow> bool" where
  "reaches = rtranclp assigns"

text \<open>The loop invariant of Pass 3 on \<open>scheduled_days\<close>: it holds every day on which the
  employee is in some shift.\<close>

definition tracked :: "scheduler \<Rightarrow> string \<Rightarrow> string list \<Rightarrow> bool" where
  "tracked s e scheduled_days = (\<forall>d \<in> set DAYS. works_on s e d \<longrightarrow> d \<in> set scheduled_days)"

subsection \<open>Invariants\<close>

definition no_double_booking :: "scheduler \<Rightarrow> bool" where
  "no_double_booking s =
     (\<forall>e day sh1 sh2. e \<in> set (roster s day sh1) \<longrightarrow> e \<in> set (roster s day sh2) \<longrightarrow> sh1 = sh2)"

definition cap_respected :: "scheduler \<Rightarrow> bool" where
  "cap_respected s = (\<forall>e. employee_days_worked s e \<le> MAX_DAYS_PER_WEEK)"

text \<open>The number of days on which the employee is in some shift.\<close>

definition days_assigned :: "scheduler \<Rightarrow> string \<Rightarrow> nat" where
  "days_assigned s e = length (filter (works_on s e) DAYS)"

definition counters_consistent :: "scheduler \<Rightarrow> bool" where
  "counters_consistent s = (\<forall>e. employee_days_worked s e = int (days_assigned s e))"

text \<open>Shift lists only get longer at the end, counters only get larger.\<close>

definition grows :: "scheduler \<Rightarrow> scheduler \<Rightarrow> bool" where
  "grows s s' =
     ((\<forall>day shift. prefix (roster s day shift) (roster s' day shift)) \<and>
      (\<forall>e. employee_days_worked s e \<le> employee_days_worked s' e))"

subsection \<open>Eligibility, registration, plans\<close>

text \<open>The three tests of the Pass 2 scan.\<close>

definition eligible :: "scheduler \<Rightarrow> string \<Rightarrow> string \<Rightarrow> string \<Rightarrow> bool" where
  "eligible s day shift e =
     (employee_days_worked s e < MAX_DAYS_PER_WEEK \<and> \<not> works_on s e day \<and>
      e \<notin> set (roster s day shift))"

text \<open>A slot that Pass 2 has finished with: at the minimum, or nobody left who is eligible.\<close>

definition saturated :: "scheduler \<Rightarrow> string \<Rightarrow> string \<Rightarrow> bool" where
  "saturated s day shift =
     (MIN_EMPLOYEES_PER_SHIFT \<le> int (length (roster s day shift)) \<or>
      List.find (eligible s day shift) (employees s) = None)"

text \<open>Every name of the employee list has a plan.\<close>

definition registered :: "scheduler \<Rightarrow> bool" where
  "registered s = (\<forall>e \<in> set (employees s). preferences s e \<noteq> None)"

text \<open>What the input layer of \<open>main\<close> supplies: every plan maps days of the week to
  non-empty shift sequences.\<close>

definition valid_plans :: "scheduler \<Rightarrow> bool" where
  "valid_plans s =
     (\<forall>e plan day shifts. preferences s e = Some plan \<longrightarrow> (day, shifts) \<in> set plan \<longrightarrow>
        day \<in> set DAYS \<and> shifts \<noteq> [])"

text \<open>Every shift named in a plan is one of the three shifts.\<close>

definition known_shifts :: "scheduler \<Rightarrow> bool" where
  "known_shifts s =
     (\<forall>e plan day shifts. preferences s e = Some plan \<longrightarrow> (day, shifts) \<in> set plan \<longrightarrow>
        set shifts \<subseteq> set SHIFTS)"

text \<open>An employee whom Pass 3 leaves alone: at the cap, or in some shift on every day of the
  plan.\<close>

definition settled :: "scheduler \<Rightarrow> string \<Rightarrow> bool" where
  "settled s e =
     (MAX_DAYS_PER_WEEK \<le> employee_days_worked s e \<or>
      (\<forall>plan. preferences s e = Some plan \<longrightarrow> (\<forall>d \<in> fst ` set plan. works_on s e d)))"

text \<open>Whoever is new in a shift list has that day in their plan; the plans are unchanged.\<close>

definition only_planned :: "scheduler \<Rightarrow> scheduler \<Rightarrow> bool" where
  "only_planned s s' =
     (preferences s' = preferences s \<and>
      (\<forall>e day shift. e \<in> set (roster s' day shift) \<longrightarrow>
         e \<in> set (roster s day shift) \<or>
         (\<exists>plan. preferences s e = Some plan \<and> map_of plan day \<noteq> None)))"

subsection \<open>The visiting order of the specification\<close>

text \<open>The specification's words for Pass 1: visit the pairs of an employee and a day, the
  employees in registration order and for each of them the days in calendar order; an
  employee whose day loop has ended is skipped on the remaining days. The pairs are given
  as a list; \<open>stopped\<close> holds the employees whose loop has ended.\<close>

fun spec_pass1 :: "scheduler \<Rightarrow> string list \<Rightarrow> (string \<times> string) list \<Rightarrow> error + scheduler" where
  "spec_pass1 s stopped [] = Inr s"
| "spec_pass1 s stopped ((employee, day) # visits) =
     (if employee \<in> set stopped then spec_pass1 s stopped visits
      else
        (case pass1_day s employee day of
           Inl e \<Rightarrow> Inl e
         | Inr (Break, s') \<Rightarrow> spec_pass1 s' (employee # stopped) visits
         | Inr (Next, s') \<Rightarrow> spec_pass1 s' stopped visits))"

text \<open>For Pass 2: visit the slots in the order given, and run the while loop on each,
  started with the length of the slot.\<close>

fun spec_pass2 :: "scheduler \<Rightarrow> (string \<times> string) list \<Rightarrow> error + scheduler" where
  "spec_pass2 s [] = Inr s"
| "spec_pass2 s ((day, shift) # slots) =
     (case slot s day shift of
        Inl e \<Rightarrow> Inl e
      | Inr xs \<Rightarrow>
          (case backfill s day shift (int (length xs)) of
             Inl e \<Rightarrow> Inl e
           | Inr s' \<Rightarrow> spec_pass2 s' slots))"

text \<open>For Pass 3: visit the employees in the order given, each with its position, and let
  the employee at position \<open>k\<close> visit the missing days in the order \<open>it k\<close>.\<close>

fun spec_pass3 :: "pass3_order \<Rightarrow> scheduler \<Rightarrow> (nat \<times> string) list \<Rightarrow> error + scheduler" where
  "spec_pass3 it s [] = Inr s"
| "spec_pass3 it s ((k, employee) # rest) =
     (case resolve_employee (it k) s employee of
        Inl e \<Rightarrow> Inl e
      | Inr s' \<Rightarrow> spec_pass3 it s' rest)"

subsection \<open>Example rosters\<close>

text \<open>Two employees who both want Monday morning.\<close>

definition scenario_a :: scheduler where
  "scenario_a = build init
     [(''Alice'', [(''Monday'', [''Morning''])]), (''Bob'', [(''Monday'', [''Morning''])])]"

text \<open>Three employees with the same ranked choices for Monday.\<close>

definition ranked3 :: scheduler where
  "ranked3 = build init
     [(''Alice'', [(''Monday'', [''Morning'', ''Afternoon'', ''Evening''])]),
      (''Bob'', [(''Monday'', [''Morning'', ''Afternoon'', ''Evening''])]),
      (''Carol'', [(''Monday'', [''Morning'', ''Afternoon'', ''Evening''])])]"

definition week :: "string \<Rightarrow> plan" where
  "week shift = [(''Tuesday'', [shift]), (''Wednesday'', [shift]), (''Thursday'', [shift]),
                 (''Friday'', [shift])]"

text \<open>Six employees who fill Tuesday to Friday, and a seventh whose plan starts with an empty
  sequence for Monday.\<close>

definition staff7 :: scheduler where
  "staff7 = build init
     [(''A'', week ''Morning''), (''B'', week ''Morning''),
      (''C'', week ''Afternoon''), (''D'', week ''Afternoon''),
      (''E'', week ''Evening''), (''F'', week ''Evening''),
      (''X'', (''Monday'', []) # week ''Morning'')]"

text \<open>As \<open>staff7\<close>, with an eighth employee whose plan is that of the seventh.\<close>

definition staff8 :: scheduler where
  "staff8 = build init
     [(''A'', week ''Morning''), (''B'', week ''Morning''),
      (''C'', week ''Afternoon''), (''D'', week ''Afternoon''),
      (''E'', week ''Evening''), (''F'', week ''Evening''),
      (''X'', (''Monday'', []) # week ''Morning''),
      (''Y'', (''Monday'', []) # week ''Morning'')]"

text \<open>One employee who wants the morning of all seven days.\<close>

definition eager :: scheduler where
  "eager = build init [(''Zoe'', map (\<lambda>day. (day, [''Morning''])) DAYS)]"

text \<open>Three ways for Pass 3 to visit its sets: every set in the order of the plan's keys,
  every set in the reverse of it, and the two by turns from one employee to the next.\<close>

definition plan_order :: pass3_order where
  "plan_order k xs = xs"

definition reverse_order :: pass3_order where
  "reverse_order k xs = rev xs"

definition by_turns :: pass3_order where
  "by_turns k xs = (if even k then xs else rev xs)"

text \<open>The state after Pass 1 over the given employees, and the state after Pass 1 and Pass 2;
  the final list of a slot.\<close>

definition after_pass1 :: "scheduler \<Rightarrow> string list \<Rightarrow> scheduler" where
  "after_pass1 s es = (case pass1 s es of Inl _ \<Rightarrow> s | Inr s' \<Rightarrow> s')"

definition before_pass3 :: "scheduler \<Rightarrow> scheduler" where
  "before_pass3 s =
     (case pass1 s (employees s) of
        Inl _ \<Rightarrow> s
      | Inr s1 \<Rightarrow> (case ensure_minimum_coverage s1 of Inl _ \<Rightarrow> s | Inr s2 \<Rightarrow> s2))"

definition final_roster :: "pass3_order \<Rightarrow> scheduler \<Rightarrow> string \<Rightarrow> string \<Rightarrow> error + string list" where
  "final_roster it s day shift =
     (case assign_shifts it s of Inl e \<Rightarrow> Inl e | Inr s' \<Rightarrow> Inr (roster s' day shift))"

section \<open>Basic facts\<close>

lemma distinct_DAYS: "distinct DAYS"
  by (simp add: DAYS_def)

lemma distinct_SHIFTS: "distinct SHIFTS"
  by (simp add: SHIFTS_def)

lemma map_of_const_row: "map_of (map (\<lambda>k. (k, v)) ks) k = (if k \<in> set ks then Some v else None)"
  by (induction ks) auto

lemma wf_init: "wf_schedule init"
  unfolding wf_schedule_def init_def
  by (simp add: map_of_const_row)

lemma wf_add_employee: "wf_schedule (add_employee s name p) = wf_schedule s"
  by (simp add: wf_schedule_def add_employee_def)

lemma wf_build: "wf_schedule (build s xs) = wf_schedule s"
  by (induction s xs rule: build.induct) (simp_all add: wf_add_employee)

lemma wf_row:
  assumes "wf_schedule s" "day \<in> set DAYS"
  obtains row where "schedule s day = Some row"
  using assms unfolding wf_schedule_def by blast

lemma wf_cell:
  assumes "wf_schedule s" "schedule s day = Some row" "shift \<in> set SHIFTS"
  obtains xs where "row shift = Some xs"
  using assms unfolding wf_schedule_def by blast

lemma wf_day: "wf_schedule s \<Longrightarrow> schedule s day = Some row \<Longrightarrow> day \<in> set DAYS"
  unfolding wf_schedule_def by blast

lemma wf_shift:
  "wf_schedule s \<Longrightarrow> schedule s day = Some row \<Longrightarrow> row shift = Some xs \<Longrightarrow> shift \<in> set SHIFTS"
  unfolding wf_schedule_def by blast

lemma slot_ok:
  assumes "wf_schedule s" "day \<in> set DAYS" "shift \<in> set SHIFTS"
  shows "slot s day shift = Inr (roster s day shift)"
proof -
  obtain row where r: "schedule s day = Some row"
    using assms(1,2) by (rule wf_row)
  obtain xs where "row shift = Some xs"
    using assms(1) r assms(3) by (rule wf_cell)
  with r show ?thesis
    by (simp add: slot_def roster_def)
qed

lemma slot_bad_day:
  "wf_schedule s \<Longrightarrow> day \<notin> set DAYS \<Longrightarrow> slot s day shift = Inl (UnknownDay day)"
  by (auto simp: slot_def split: option.splits dest: wf_day)

lemma slot_bad_shift:
  assumes "wf_schedule s" "day \<in> set DAYS" "shift \<notin> set SHIFTS"
  shows "slot s day shift = Inl (UnknownShift shift)"
proof -
  obtain row where r: "schedule s day = Some row"
    using assms(1,2) by (rule wf_row)
  have "row shift = None"
    using wf_shift[OF assms(1) r, of shift] assms(3) by (cases "row shift") auto
  with r show ?thesis
    by (simp add: slot_def)
qed

lemma slot_Inr_valid:
  "wf_schedule s \<Longrightarrow> slot s day shift = Inr xs \<Longrightarrow> day \<in> set DAYS \<and> shift \<in> set SHIFTS \<and> xs = roster s day shift"
  by (auto simp: slot_def roster_def split: option.splits dest: wf_day wf_shift)

lemma roster_outside:
  "wf_schedule s \<Longrightarrow> day \<notin> set DAYS \<or> shift \<notin> set SHIFTS \<Longrightarrow> roster s day shift = []"
  unfolding roster_def using slot_Inr_valid[of s day shift]
  by (auto split: sum.splits)

lemma place_slot:
  "place s day shift employee = (case slot s day shift of Inl e \<Rightarrow> Inl e | Inr xs \<Rightarrow>
      Inr (s\<lparr> schedule := (schedule s)(day \<mapsto> (the (schedule s day))(shift \<mapsto> xs @ [employee])),
                        employee_days_worked :=
                          (employee_days_worked s)(employee := employee_days_worked s employee + 1) \<rparr>))"
  unfolding place_def slot_def by (auto split: option.splits)

lemma place_employees: "place s day shift e = Inr s' \<Longrightarrow> employees s' = employees s"
  unfolding place_def by (auto split: option.splits)

lemma place_preferences: "place s day shift e = Inr s' \<Longrightarrow> preferences s' = preferences s"
  unfolding place_def by (auto split: option.splits)

lemma place_days_worked:
  "place s day shift e = Inr s' \<Longrightarrow>
   employee_days_worked s' = (employee_days_worked s)(e := employee_days_worked s e + 1)"
  unfolding place_def by (auto split: option.splits)

lemma place_InrE:
  assumes "place s day shift e = Inr s'"
  obtains row xs where "schedule s day = Some row" "row shift = Some xs"
    "schedule s' = (schedule s)(day \<mapsto> row(shift \<mapsto> xs @ [e]))"
  using assms unfolding place_def by (auto split: option.splits)

lemma place_wf:
  assumes "place s day shift e = Inr s'" "wf_schedule s"
  shows "wf_schedule s'"
proof -
  from assms(1) obtain row xs where r: "schedule s day = Some row" and c: "row shift = Some xs"
    and s': "schedule s' = (schedule s)(day \<mapsto> row(shift \<mapsto> xs @ [e]))"
    by (rule place_InrE)
  have d: "day \<in> set DAYS"
    using assms(2) r by (rule wf_day)
  have sh: "shift \<in> set SHIFTS"
    using assms(2) r c by (rule wf_shift)
  have 1: "(schedule s' x \<noteq> None) = (x \<in> set DAYS)" for x
    using assms(2) d by (simp add: s' wf_schedule_def)
  have 2: "(row' x \<noteq> None) = (x \<in> set SHIFTS)" if "schedule s' y = Some row'" for y row' x
  proof (cases "y = day")
    case True
    with that have "row' = row(shift \<mapsto> xs @ [e])"
      by (simp add: s')
    moreover have "(row x \<noteq> None) = (x \<in> set SHIFTS)"
      using assms(2) r unfolding wf_schedule_def by blast
    ultimately show ?thesis
      using sh by simp
  next
    case False
    with that have "schedule s y = Some row'"
      by (simp add: s')
    then show ?thesis
      using assms(2) unfolding wf_schedule_def by blast
  qed
  show ?thesis
    unfolding wf_schedule_def using 1 2 by blast
qed

lemma place_roster:
  "place s day shift e = Inr s' \<Longrightarrow>
   roster s' d sh = (if d = day \<and> sh = shift then roster s day shift @ [e] else roster s d sh)"
  unfolding place_def roster_def slot_def
  by (cases "d = day"; cases "sh = shift"; auto split: option.splits)

lemma place_ok:
  "wf_schedule s \<Longrightarrow> day \<in> set DAYS \<Longrightarrow> shift \<in> set SHIFTS \<Longrightarrow> \<exists>s'. place s day shift e = Inr s'"
  by (simp add: place_slot slot_ok)

lemma place_Inl: "place s day shift e = Inl err \<longleftrightarrow> slot s day shift = Inl err"
  by (simp add: place_slot split: sum.splits)

lemma place_Inr_valid:
  "wf_schedule s \<Longrightarrow> place s day shift e = Inr s' \<Longrightarrow> day \<in> set DAYS \<and> shift \<in> set SHIFTS"
  using slot_Inr_valid[of s day shift] by (auto simp: place_slot split: sum.splits)

lemma scheduled_in_ok:
  "wf_schedule s \<Longrightarrow> day \<in> set DAYS \<Longrightarrow> set shifts \<subseteq> set SHIFTS \<Longrightarrow>
   scheduled_in s e day shifts = Inr (\<exists>shift \<in> set shifts. e \<in> set (roster s day shift))"
  by (induction shifts) (auto simp: slot_ok)

lemma already_scheduled_ok:
  "wf_schedule s \<Longrightarrow> day \<in> set DAYS \<Longrightarrow> already_scheduled s e day = Inr (works_on s e day)"
  by (simp add: already_scheduled_def works_on_def scheduled_in_ok)

lemma already_scheduled_bad_day:
  "wf_schedule s \<Longrightarrow> day \<notin> set DAYS \<Longrightarrow> already_scheduled s e day = Inl (UnknownDay day)"
  by (simp add: already_scheduled_def SHIFTS_def slot_bad_day)

lemma works_on_place:
  "place s day shift e = Inr s' \<Longrightarrow> wf_schedule s \<Longrightarrow>
   works_on s' e' d = (works_on s e' d \<or> (e' = e \<and> d = day))"
  using place_Inr_valid[of s day shift e s']
  by (auto simp: works_on_def place_roster)

subsection \<open>Chains of guarded placements\<close>

lemma reaches_refl: "reaches s s"
  by (simp add: reaches_def)

lemma reaches_step: "assigns s s' \<Longrightarrow> reaches s s'"
  by (simp add: reaches_def)

lemma reaches_trans: "reaches a b \<Longrightarrow> reaches b c \<Longrightarrow> reaches a c"
  by (simp add: reaches_def)

lemma assigns_wf: "assigns s s' \<Longrightarrow> wf_schedule s \<Longrightarrow> wf_schedule s'"
  unfolding assigns_def by (blast intro: place_wf)

lemma reaches_induct:
  assumes "reaches s s'" "wf_schedule s" "P s"
    and "\<And>a b. wf_schedule a \<Longrightarrow> P a \<Longrightarrow> assigns a b \<Longrightarrow> P b"
  shows "wf_schedule s' \<and> P s'"
  using assms(1) unfolding reaches_def
proof (induction rule: rtranclp_induct)
  case base
  show ?case using assms(2,3) by simp
next
  case (step y z)
  then show ?case using assms(4) assigns_wf by blast
qed

lemma reaches_wf: "reaches s s' \<Longrightarrow> wf_schedule s \<Longrightarrow> wf_schedule s'"
  using reaches_induct[of s s' "\<lambda>_. True"] by simp

lemma reaches_employees: "reaches s s' \<Longrightarrow> employees s' = employees s"
  unfolding reaches_def
  by (induction rule: rtranclp_induct) (auto simp: assigns_def dest: place_employees)

lemma reaches_preferences: "reaches s s' \<Longrightarrow> preferences s' = preferences s"
  unfolding reaches_def
  by (induction rule: rtranclp_induct) (auto simp: assigns_def dest: place_preferences)

subsection \<open>Pass 1 only makes guarded placements\<close>

lemma pass1_day_step:
  assumes "wf_schedule s" "day \<in> set DAYS" "pass1_day s e day = Inr (f, s')"
  shows "s' = s \<or> assigns s s'"
proof (cases "s' = s")
  case True
  then show ?thesis by simp
next
  case False
  from assms(3) False obtain plan sh rest where
    cap: "employee_days_worked s e < MAX_DAYS_PER_WEEK" and
    "preferences s e = Some plan" "map_of plan day = Some (sh # rest)" and
    free: "\<not> works_on s e day" and pl: "place s day sh e = Inr s'"
    unfolding pass1_day_def
    by (auto simp: already_scheduled_ok[OF assms(1,2)]
        split: if_splits option.splits sum.splits bool.splits list.splits)
  have "sh \<in> set SHIFTS"
    using place_Inr_valid[OF assms(1) pl] by simp
  then show ?thesis
    unfolding assigns_def using assms(2) cap free pl by blast
qed

lemma pass1_days_reaches:
  "wf_schedule s \<Longrightarrow> set days \<subseteq> set DAYS \<Longrightarrow> pass1_days s e days = Inr s' \<Longrightarrow> reaches s s'"
proof (induction days arbitrary: s)
  case Nil
  then show ?case by (simp add: reaches_refl)
next
  case (Cons day days)
  from Cons.prems(3) obtain f t where st: "pass1_day s e day = Inr (f, t)"
    by (auto split: sum.splits)
  have d: "day \<in> set DAYS" using Cons.prems(2) by simp
  have r: "reaches s t"
    using pass1_day_step[OF Cons.prems(1) d st] by (auto intro: reaches_refl reaches_step)
  show ?case
  proof (cases f)
    case Next
    with Cons.prems(3) st have "pass1_days t e days = Inr s'" by simp
    moreover have "wf_schedule t" using r Cons.prems(1) by (rule reaches_wf)
    ultimately have "reaches t s'" using Cons.IH Cons.prems(2) by simp
    with r show ?thesis by (rule reaches_trans)
  next
    case Break
    with Cons.prems(3) st have "s' = t" by simp
    with r show ?thesis by simp
  qed
qed

lemma pass1_reaches:
  "wf_schedule s \<Longrightarrow> pass1 s es = Inr s' \<Longrightarrow> reaches s s'"
proof (induction es arbitrary: s)
  case Nil
  then show ?case by (simp add: reaches_refl)
next
  case (Cons e es)
  from Cons.prems(2) obtain t where st: "pass1_days s e DAYS = Inr t" and rest: "pass1 t es = Inr s'"
    by (auto split: sum.splits)
  have r: "reaches s t"
    using Cons.prems(1) st by (auto intro: pass1_days_reaches)
  have "reaches t s'"
    using Cons.IH[OF reaches_wf[OF r Cons.prems(1)] rest] .
  with r show ?case by (rule reaches_trans)
qed

subsection \<open>Pass 2 only makes guarded placements\<close>

lemma find_available_step:
  "wf_schedule s \<Longrightarrow> day \<in> set DAYS \<Longrightarrow> shift \<in> set SHIFTS \<Longrightarrow>
   find_available s day shift es = Inr (Some s') \<Longrightarrow> assigns s s'"
proof (induction es)
  case Nil
  then show ?case by simp
next
  case (Cons e es)
  show ?case
  proof (cases "find_available s day shift es = Inr (Some s')")
    case True
    then show ?thesis using Cons by simp
  next
    case False
    with Cons.prems(4) have "employee_days_worked s e < MAX_DAYS_PER_WEEK"
      "\<not> works_on s e day" "place s day shift e = Inr s'"
      by (auto simp: already_scheduled_ok[OF Cons.prems(1,2)] slot_ok[OF Cons.prems(1,2,3)]
          split: if_splits sum.splits bool.splits)
    then show ?thesis
      unfolding assigns_def using Cons.prems(2,3) by blast
  qed
qed

lemma backfill_reaches:
  "wf_schedule s \<Longrightarrow> day \<in> set DAYS \<Longrightarrow> shift \<in> set SHIFTS \<Longrightarrow>
   backfill s day shift c = Inr s' \<Longrightarrow> reaches s s'"
proof (induction s day shift c rule: backfill.induct)
  case (1 s day shift c)
  note unf = backfill.simps[of s day shift c]
  show ?case
  proof (cases "c < MIN_EMPLOYEES_PER_SHIFT")
    case False
    with "1.prems"(4) show ?thesis by (simp add: unf reaches_refl)
  next
    case True
    show ?thesis
    proof (cases "find_available s day shift (employees s)")
      case (Inl err)
      with True "1.prems"(4) show ?thesis by (simp add: unf)
    next
      case (Inr r)
      show ?thesis
      proof (cases r)
        case None
        with Inr True "1.prems"(4) show ?thesis by (simp add: unf reaches_refl)
      next
        case (Some t)
        have a: "assigns s t"
          using find_available_step[OF "1.prems"(1,2,3)] Inr Some by simp
        have "backfill t day shift (c + 1) = Inr s'"
          using "1.prems"(4) True Inr Some by (simp add: unf)
        then have "reaches t s'"
          using "1.IH"[OF True Inr Some assigns_wf[OF a "1.prems"(1)] "1.prems"(2,3)] by simp
        with reaches_step[OF a] show ?thesis by (rule reaches_trans)
      qed
    qed
  qed
qed

lemma coverage_shifts_reaches:
  "wf_schedule s \<Longrightarrow> day \<in> set DAYS \<Longrightarrow> set shifts \<subseteq> set SHIFTS \<Longrightarrow>
   coverage_shifts s day shifts = Inr s' \<Longrightarrow> reaches s s'"
proof (induction shifts arbitrary: s)
  case Nil
  then show ?case by (simp add: reaches_refl)
next
  case (Cons shift shifts)
  from Cons.prems(4) obtain c t where "backfill s day shift c = Inr t"
    and rest: "coverage_shifts t day shifts = Inr s'"
    by (auto split: sum.splits)
  then have r: "reaches s t"
    using backfill_reaches[of s day shift _ t] Cons.prems(1,2,3) by simp
  have "reaches t s'"
    using Cons.IH[OF reaches_wf[OF r Cons.prems(1)] Cons.prems(2) _ rest] Cons.prems(3) by simp
  with r show ?case by (rule reaches_trans)
qed

lemma coverage_days_reaches:
  "wf_schedule s \<Longrightarrow> set days \<subseteq> set DAYS \<Longrightarrow> coverage_days s days = Inr s' \<Longrightarrow> reaches s s'"
proof (induction days arbitrary: s)
  case Nil
  then show ?case by (simp add: reaches_refl)
next
  case (Cons day days)
  from Cons.prems(3) obtain t where st: "coverage_shifts s day SHIFTS = Inr t"
    and rest: "coverage_days t days = Inr s'"
    by (auto split: sum.splits)
  have r: "reaches s t"
    using coverage_shifts_reaches[OF Cons.prems(1) _ _ st] Cons.prems(2) by simp
  have "reaches t s'"
    using Cons.IH[OF reaches_wf[OF r Cons.prems(1)] _ rest] Cons.prems(2) by simp
  with r show ?case by (rule reaches_trans)
qed

lemma ensure_minimum_coverage_reaches:
  "wf_schedule s \<Longrightarrow> ensure_minimum_coverage s = Inr s' \<Longrightarrow> reaches s s'"
  unfolding ensure_minimum_coverage_def by (rule coverage_days_reaches) simp_all

subsection \<open>Pass 3 only makes guarded placements\<close>

lemma works_on_outside: "wf_schedule s \<Longrightarrow> day \<notin> set DAYS \<Longrightarrow> \<not> works_on s e day"
  by (simp add: works_on_def roster_outside)

lemma try_shifts_step:
  "try_shifts s e day shifts = Inr (Some s') \<Longrightarrow> \<exists>shift \<in> set shifts. place s day shift e = Inr s'"
  by (induction shifts) (auto split: sum.splits if_splits)

lemma resolve_day_step:
  assumes "wf_schedule s" "tracked s e sd" "resolve_day s e sd day = Inr (f, s', sd')"
  shows "(s' = s \<or> assigns s s') \<and> tracked s' e sd'"
proof (cases "s' = s \<and> sd' = sd")
  case True
  then show ?thesis using assms(2) by simp
next
  case False
  from assms(3) False obtain shifts where
    cap: "employee_days_worked s e < MAX_DAYS_PER_WEEK" and
    new: "day \<notin> set sd" and
    tr: "try_shifts s e day shifts = Inr (Some s')" and
    sd': "sd' = List.insert day sd"
    unfolding resolve_day_def
    by (auto split: if_splits sum.splits option.splits)
  from try_shifts_step[OF tr] obtain shift where pl: "place s day shift e = Inr s'"
    by blast
  have v: "day \<in> set DAYS" "shift \<in> set SHIFTS"
    using place_Inr_valid[OF assms(1) pl] by simp_all
  have free: "\<not> works_on s e day"
    using assms(2) new v(1) unfolding tracked_def by blast
  have "assigns s s'"
    unfolding assigns_def using v cap free pl by blast
  moreover have "tracked s' e sd'"
    using assms(2) unfolding tracked_def sd'
    by (auto simp: works_on_place[OF pl assms(1)])
  ultimately show ?thesis by simp
qed

lemma resolve_days_reaches:
  "wf_schedule s \<Longrightarrow> tracked s e sd \<Longrightarrow> resolve_days s e sd days = Inr s' \<Longrightarrow> reaches s s'"
proof (induction days arbitrary: s sd)
  case Nil
  then show ?case by (simp add: reaches_refl)
next
  case (Cons day days)
  from Cons.prems(3) obtain f t sd' where st: "resolve_day s e sd day = Inr (f, t, sd')"
    by (auto split: sum.splits)
  note step = resolve_day_step[OF Cons.prems(1,2) st]
  have r: "reaches s t"
    using step by (auto intro: reaches_refl reaches_step)
  show ?case
  proof (cases f)
    case Next
    with Cons.prems(3) st have "resolve_days t e sd' days = Inr s'" by simp
    then have "reaches t s'"
      using Cons.IH[OF reaches_wf[OF r Cons.prems(1)]] step by blast
    with r show ?thesis by (rule reaches_trans)
  next
    case Break
    with Cons.prems(3) st have "s' = t" by simp
    with r show ?thesis by simp
  qed
qed

lemma collect_shifts_set:
  "wf_schedule s \<Longrightarrow> day \<in> set DAYS \<Longrightarrow> set shifts \<subseteq> set SHIFTS \<Longrightarrow>
   \<exists>acc'. collect_shifts s e day shifts acc = Inr acc' \<and>
     set acc' = set acc \<union> (if \<exists>sh \<in> set shifts. e \<in> set (roster s day sh) then {day} else {})"
proof (induction shifts arbitrary: acc)
  case Nil
  then show ?case by simp
next
  case (Cons shift shifts)
  have sl: "slot s day shift = Inr (roster s day shift)"
    using Cons.prems by (simp add: slot_ok)
  from Cons.IH[OF Cons.prems(1,2), of "if e \<in> set (roster s day shift) then List.insert day acc else acc"]
    Cons.prems(3)
  show ?case
    by (auto simp: sl)
qed

lemma collect_days_set:
  "wf_schedule s \<Longrightarrow> set days \<subseteq> set DAYS \<Longrightarrow>
   \<exists>acc'. collect_days s e days acc = Inr acc' \<and> set acc' = set acc \<union> {d \<in> set days. works_on s e d}"
proof (induction days arbitrary: acc)
  case Nil
  then show ?case by simp
next
  case (Cons day days)
  from collect_shifts_set[OF Cons.prems(1), of day SHIFTS e acc] Cons.prems(2)
  obtain acc1 where 1: "collect_shifts s e day SHIFTS acc = Inr acc1"
    "set acc1 = set acc \<union> (if works_on s e day then {day} else {})"
    unfolding works_on_def by auto
  from Cons.IH[OF Cons.prems(1), of acc1] Cons.prems(2)
  obtain acc2 where 2: "collect_days s e days acc1 = Inr acc2"
    "set acc2 = set acc1 \<union> {d \<in> set days. works_on s e d}"
    by auto
  show ?case
    using 1 2 by auto
qed

lemma collect_days_tracked:
  "wf_schedule s \<Longrightarrow> collect_days s e DAYS [] = Inr sd \<Longrightarrow> tracked s e sd"
  using collect_days_set[of s DAYS e "[]"] by (auto simp: tracked_def)

lemma resolve_employee_reaches:
  assumes "wf_schedule s" "resolve_employee it s e = Inr s'"
  shows "reaches s s'"
proof -
  from assms(2) obtain plan sd where
    "collect_days s e DAYS [] = Inr sd" "resolve_days s e sd (it (missing_days plan sd)) = Inr s'"
    unfolding resolve_employee_def by (auto split: option.splits sum.splits)
  then show ?thesis
    using resolve_days_reaches[OF assms(1) collect_days_tracked[OF assms(1)]] by blast
qed

lemma resolve_loop_reaches:
  "wf_schedule s \<Longrightarrow> resolve_loop it k s es = Inr s' \<Longrightarrow> reaches s s'"
proof (induction es arbitrary: s k)
  case Nil
  then show ?case by (simp add: reaches_refl)
next
  case (Cons e es)
  from Cons.prems(2) obtain t where st: "resolve_employee (it k) s e = Inr t"
    and rest: "resolve_loop it (Suc k) t es = Inr s'"
    by (auto split: sum.splits)
  have r: "reaches s t"
    using Cons.prems(1) st by (rule resolve_employee_reaches)
  have "reaches t s'"
    using Cons.IH[OF reaches_wf[OF r Cons.prems(1)] rest] .
  with r show ?case by (rule reaches_trans)
qed

lemma resolve_conflicts_reaches:
  "wf_schedule s \<Longrightarrow> resolve_conflicts it s = Inr s' \<Longrightarrow> reaches s s'"
  unfolding resolve_conflicts_def by (rule resolve_loop_reaches)

subsection \<open>What a guarded placement preserves\<close>

lemma roster_init: "roster init day shift = []"
  by (simp add: roster_def slot_def init_def map_of_const_row split: option.splits)

lemma roster_add_employee: "roster (add_employee s name p) day shift = roster s day shift"
  by (simp add: roster_def slot_def add_employee_def)

lemma roster_build: "roster (build s xs) day shift = roster s day shift"
  by (induction s xs rule: build.induct) (simp_all add: roster_add_employee)

lemma days_worked_add_employee: "employee_days_worked (add_employee s name p) = employee_days_worked s"
  by (simp add: add_employee_def)

lemma days_worked_build: "employee_days_worked (build s xs) = employee_days_worked s"
  by (induction s xs rule: build.induct) (simp_all add: days_worked_add_employee)

lemma not_works_on_roster:
  "wf_schedule s \<Longrightarrow> \<not> works_on s e day \<Longrightarrow> e \<notin> set (roster s day sh)"
  using roster_outside[of s day sh] by (cases "sh \<in> set SHIFTS") (auto simp: works_on_def)

lemma assigns_no_double_booking:
  assumes "wf_schedule a" "no_double_booking a" "assigns a b"
  shows "no_double_booking b"
proof -
  from assms(3) obtain day shift e where free: "\<not> works_on a e day"
    and pl: "place a day shift e = Inr b"
    unfolding assigns_def by blast
  have out: "e \<notin> set (roster a day sh)" for sh
    using assms(1) free by (rule not_works_on_roster)
  show ?thesis
    unfolding no_double_booking_def
  proof (intro allI impI)
    fix e' d sh1 sh2
    assume 1: "e' \<in> set (roster b d sh1)" and 2: "e' \<in> set (roster b d sh2)"
    show "sh1 = sh2"
    proof (cases "e' = e \<and> d = day")
      case True
      with 1 2 out show ?thesis
        by (auto simp: place_roster[OF pl] split: if_splits)
    next
      case False
      with 1 2 have "e' \<in> set (roster a d sh1)" "e' \<in> set (roster a d sh2)"
        by (auto simp: place_roster[OF pl] split: if_splits)
      with assms(2) show ?thesis
        unfolding no_double_booking_def by blast
    qed
  qed
qed

lemma assigns_cap_respected:
  assumes "cap_respected a" "assigns a b"
  shows "cap_respected b"
proof -
  from assms(2) obtain day shift e where "employee_days_worked a e < MAX_DAYS_PER_WEEK"
    and "place a day shift e = Inr b"
    unfolding assigns_def by blast
  with assms(1) show ?thesis
    unfolding cap_respected_def by (auto simp: place_days_worked)
qed

lemma length_filter_new:
  "distinct xs \<Longrightarrow> x \<in> set xs \<Longrightarrow> \<not> P x \<Longrightarrow>
   length (filter (\<lambda>y. P y \<or> y = x) xs) = Suc (length (filter P xs))"
proof (induction xs)
  case Nil
  then show ?case by simp
next
  case (Cons a xs)
  show ?case
  proof (cases "a = x")
    case True
    with Cons.prems have "x \<notin> set xs" by simp
    then have "filter (\<lambda>y. P y \<or> y = x) xs = filter P xs"
      by (intro filter_cong) auto
    with True Cons.prems(3) show ?thesis by simp
  next
    case False
    with Cons show ?thesis by simp
  qed
qed

lemma assigns_counters_consistent:
  assumes "wf_schedule a" "counters_consistent a" "assigns a b"
  shows "counters_consistent b"
proof -
  from assms(3) obtain day shift e where d: "day \<in> set DAYS" and free: "\<not> works_on a e day"
    and pl: "place a day shift e = Inr b"
    unfolding assigns_def by blast
  note w = works_on_place[OF pl assms(1)]
  show ?thesis
    unfolding counters_consistent_def
  proof
    fix e'
    show "employee_days_worked b e' = int (days_assigned b e')"
    proof (cases "e' = e")
      case True
      have "works_on b e = (\<lambda>y. works_on a e y \<or> y = day)"
        by (rule ext) (simp add: w)
      then have "days_assigned b e = Suc (days_assigned a e)"
        unfolding days_assigned_def
        using length_filter_new[of DAYS day "works_on a e", OF distinct_DAYS d free]
        by simp
      with True assms(2) show ?thesis
        by (simp add: counters_consistent_def place_days_worked[OF pl])
    next
      case False
      then have "works_on b e' = works_on a e'"
        by (intro ext) (simp add: w)
      then have "days_assigned b e' = days_assigned a e'"
        unfolding days_assigned_def by simp
      with False assms(2) show ?thesis
        by (simp add: counters_consistent_def place_days_worked[OF pl])
    qed
  qed
qed

lemma grows_refl: "grows s s"
  by (simp add: grows_def)

lemma grows_trans: "grows a b \<Longrightarrow> grows b c \<Longrightarrow> grows a c"
  unfolding grows_def by (meson order_trans prefix_order.order_trans)

lemma assigns_grows: "assigns a b \<Longrightarrow> grows a b"
  unfolding assigns_def grows_def
  by (auto simp: place_roster place_days_worked)

lemma reaches_grows: "reaches s s' \<Longrightarrow> grows s s'"
  unfolding reaches_def
  by (induction rule: rtranclp_induct) (auto intro: grows_refl grows_trans assigns_grows)

lemma no_double_booking_init: "no_double_booking (build init xs)"
  by (simp add: no_double_booking_def roster_build roster_init)

lemma cap_respected_init: "cap_respected (build init xs)"
  by (simp add: cap_respected_def days_worked_build init_def MAX_DAYS_PER_WEEK_def)

lemma counters_consistent_init: "counters_consistent (build init xs)"
  by (simp add: counters_consistent_def days_assigned_def works_on_def roster_build roster_init
      days_worked_build) (simp add: init_def)

lemma place_cap_respected:
  "cap_respected s \<Longrightarrow> \<not> MAX_DAYS_PER_WEEK \<le> employee_days_worked s e \<Longrightarrow>
   place s day shift e = Inr s' \<Longrightarrow> cap_respected s'"
  unfolding cap_respected_def by (auto simp: place_days_worked)

lemma pass1_day_cap_respected:
  "cap_respected s \<Longrightarrow> pass1_day s e day = Inr (f, s') \<Longrightarrow> cap_respected s'"
  unfolding pass1_day_def
  by (auto split: if_splits option.splits sum.splits bool.splits list.splits
      intro: place_cap_respected)

lemma find_available_cap_respected:
  "cap_respected s \<Longrightarrow> find_available s day shift es = Inr (Some s') \<Longrightarrow> cap_respected s'"
  by (induction es)
     (auto split: if_splits sum.splits bool.splits intro: place_cap_respected)

lemma resolve_day_cap_respected:
  "cap_respected s \<Longrightarrow> resolve_day s e sd day = Inr (f, s', sd') \<Longrightarrow> cap_respected s'"
  unfolding resolve_day_def
  by (auto split: if_splits sum.splits option.splits
      dest!: try_shifts_step intro: place_cap_respected)

lemma reaches_cap_respected:
  "reaches s s' \<Longrightarrow> wf_schedule s \<Longrightarrow> cap_respected s \<Longrightarrow> cap_respected s'"
  using reaches_induct[of s s' cap_respected] assigns_cap_respected by blast

lemma reaches_no_double_booking:
  "reaches s s' \<Longrightarrow> wf_schedule s \<Longrightarrow> no_double_booking s \<Longrightarrow> no_double_booking s'"
  using reaches_induct[of s s' no_double_booking] assigns_no_double_booking by blast

lemma reaches_counters_consistent:
  "reaches s s' \<Longrightarrow> wf_schedule s \<Longrightarrow> counters_consistent s \<Longrightarrow> counters_consistent s'"
  using reaches_induct[of s s' counters_consistent] assigns_counters_consistent by blast

lemma grows_works_on: "grows s s' \<Longrightarrow> works_on s e d \<Longrightarrow> works_on s' e d"
  unfolding grows_def works_on_def by (meson set_mono_prefix subsetD)

lemma reaches_works_on: "reaches s s' \<Longrightarrow> works_on s e d \<Longrightarrow> works_on s' e d"
  by (auto dest: reaches_grows grows_works_on)

lemma reaches_days_worked: "reaches s s' \<Longrightarrow> employee_days_worked s e \<le> employee_days_worked s' e"
  by (auto dest: reaches_grows simp: grows_def)

subsection \<open>Pass 2 takes the first eligible employee and always returns\<close>

lemma find_available_find:
  assumes "wf_schedule s" "day \<in> set DAYS" "shift \<in> set SHIFTS"
  shows "find_available s day shift es =
     (case List.find (eligible s day shift) es of
        None \<Rightarrow> Inr None
      | Some e \<Rightarrow> (case place s day shift e of Inl err \<Rightarrow> Inl err | Inr s' \<Rightarrow> Inr (Some s')))"
proof (induction es)
  case Nil
  show ?case by simp
next
  case (Cons e es)
  show ?case
  proof (cases "eligible s day shift e")
    case True
    then have "employee_days_worked s e < MAX_DAYS_PER_WEEK" "\<not> works_on s e day"
      "e \<notin> set (roster s day shift)"
      by (simp_all add: eligible_def)
    with True show ?thesis
      by (simp add: already_scheduled_ok[OF assms(1,2)] slot_ok[OF assms])
  next
    case False
    then have "MAX_DAYS_PER_WEEK \<le> employee_days_worked s e \<or> works_on s e day \<or>
      e \<in> set (roster s day shift)"
      by (auto simp: eligible_def)
    with False Cons.IH show ?thesis
      by (auto simp: already_scheduled_ok[OF assms(1,2)] slot_ok[OF assms] split: bool.splits)
  qed
qed

lemma find_available_total:
  assumes "wf_schedule s" "day \<in> set DAYS" "shift \<in> set SHIFTS"
  shows "\<exists>r. find_available s day shift es = Inr r"
proof (cases "List.find (eligible s day shift) es")
  case None
  then show ?thesis by (simp add: find_available_find[OF assms])
next
  case (Some e)
  obtain s' where "place s day shift e = Inr s'"
    using place_ok[OF assms] by blast
  with Some show ?thesis by (simp add: find_available_find[OF assms])
qed

lemma backfill_total:
  "wf_schedule s \<Longrightarrow> day \<in> set DAYS \<Longrightarrow> shift \<in> set SHIFTS \<Longrightarrow>
   \<exists>s'. backfill s day shift c = Inr s'"
proof (induction s day shift c rule: backfill.induct)
  case (1 s day shift c)
  note unf = backfill.simps[of s day shift c]
  show ?case
  proof (cases "c < MIN_EMPLOYEES_PER_SHIFT")
    case False
    then show ?thesis by (simp add: unf)
  next
    case True
    obtain r where r: "find_available s day shift (employees s) = Inr r"
      using find_available_total[OF "1.prems"] by blast
    show ?thesis
    proof (cases r)
      case None
      with r True show ?thesis by (simp add: unf)
    next
      case (Some t)
      have "assigns s t"
        using find_available_step[OF "1.prems"] r Some by simp
      then have "wf_schedule t"
        using "1.prems"(1) by (rule assigns_wf)
      from "1.IH"[OF True r Some this "1.prems"(2,3)] r Some True show ?thesis
        by (simp add: unf)
    qed
  qed
qed

lemma coverage_shifts_total:
  "wf_schedule s \<Longrightarrow> day \<in> set DAYS \<Longrightarrow> set shifts \<subseteq> set SHIFTS \<Longrightarrow>
   \<exists>s'. coverage_shifts s day shifts = Inr s'"
proof (induction shifts arbitrary: s)
  case Nil
  then show ?case by simp
next
  case (Cons shift shifts)
  have sh: "shift \<in> set SHIFTS" using Cons.prems(3) by simp
  obtain t where t: "backfill s day shift (int (length (roster s day shift))) = Inr t"
    using backfill_total[OF Cons.prems(1,2) sh] by blast
  have "wf_schedule t"
    using backfill_reaches[OF Cons.prems(1,2) sh t] Cons.prems(1) by (rule reaches_wf)
  from Cons.IH[OF this Cons.prems(2)] Cons.prems(3) t show ?case
    by (simp add: slot_ok[OF Cons.prems(1,2) sh])
qed

lemma coverage_days_total:
  "wf_schedule s \<Longrightarrow> set days \<subseteq> set DAYS \<Longrightarrow> \<exists>s'. coverage_days s days = Inr s'"
proof (induction days arbitrary: s)
  case Nil
  then show ?case by simp
next
  case (Cons day days)
  have d: "day \<in> set DAYS" using Cons.prems(2) by simp
  obtain t where t: "coverage_shifts s day SHIFTS = Inr t"
    using coverage_shifts_total[OF Cons.prems(1) d, of SHIFTS] by auto
  have "wf_schedule t"
    using coverage_shifts_reaches[OF Cons.prems(1) d _ t] Cons.prems(1) by (auto intro: reaches_wf)
  from Cons.IH[OF this] Cons.prems(2) t show ?case
    by simp
qed

lemma ensure_minimum_coverage_total:
  "wf_schedule s \<Longrightarrow> \<exists>s'. ensure_minimum_coverage s = Inr s'"
  unfolding ensure_minimum_coverage_def by (rule coverage_days_total) simp_all

lemma backfill_post:
  "wf_schedule s \<Longrightarrow> day \<in> set DAYS \<Longrightarrow> shift \<in> set SHIFTS \<Longrightarrow>
   c = int (length (roster s day shift)) \<Longrightarrow> backfill s day shift c = Inr s' \<Longrightarrow>
   MIN_EMPLOYEES_PER_SHIFT \<le> int (length (roster s' day shift)) \<or>
   List.find (eligible s' day shift) (employees s') = None"
proof (induction s day shift c rule: backfill.induct)
  case (1 s day shift c)
  note unf = backfill.simps[of s day shift c]
  note ff = find_available_find[OF "1.prems"(1,2,3), of "employees s"]
  show ?case
  proof (cases "c < MIN_EMPLOYEES_PER_SHIFT")
    case False
    with "1.prems"(5) have "s' = s" by (simp add: unf)
    with False "1.prems"(4) show ?thesis by simp
  next
    case True
    show ?thesis
    proof (cases "List.find (eligible s day shift) (employees s)")
      case None
      with True "1.prems"(5) show ?thesis by (simp add: unf ff)
    next
      case (Some e)
      obtain t where pl: "place s day shift e = Inr t"
        using place_ok[OF "1.prems"(1,2,3)] by blast
      have fa: "find_available s day shift (employees s) = Inr (Some t)"
        using Some pl by (simp add: ff)
      have w: "wf_schedule t"
        using pl "1.prems"(1) by (rule place_wf)
      have c': "c + 1 = int (length (roster t day shift))"
        using "1.prems"(4) by (simp add: place_roster[OF pl])
      have "backfill t day shift (c + 1) = Inr s'"
        using "1.prems"(5) True fa by (simp add: unf)
      from "1.IH"[OF True fa refl w "1.prems"(2,3) c' this] show ?thesis .
    qed
  qed
qed

lemma reaches_eligible: "reaches s s' \<Longrightarrow> eligible s' day shift e \<Longrightarrow> eligible s day shift e"
proof -
  assume r: "reaches s s'" and e: "eligible s' day shift e"
  note g = reaches_grows[OF r]
  have "employee_days_worked s e \<le> employee_days_worked s' e"
    using g by (simp add: grows_def)
  moreover have "set (roster s day shift) \<subseteq> set (roster s' day shift)"
    using g by (simp add: grows_def set_mono_prefix)
  ultimately show ?thesis
    using e reaches_works_on[OF r, of e day] unfolding eligible_def by auto
qed

lemma reaches_saturated:
  assumes "reaches s s'" "saturated s day shift"
  shows "saturated s' day shift"
proof -
  have "length (roster s day shift) \<le> length (roster s' day shift)"
    using reaches_grows[OF assms(1)] by (simp add: grows_def prefix_length_le)
  moreover have "List.find (eligible s' day shift) (employees s') = None"
    if "List.find (eligible s day shift) (employees s) = None"
    using that reaches_eligible[OF assms(1)]
    by (auto simp: find_None_iff reaches_employees[OF assms(1)])
  ultimately show ?thesis
    using assms(2) unfolding saturated_def by auto
qed

lemma coverage_shifts_saturated:
  "wf_schedule s \<Longrightarrow> day \<in> set DAYS \<Longrightarrow> set shifts \<subseteq> set SHIFTS \<Longrightarrow>
   coverage_shifts s day shifts = Inr s' \<Longrightarrow> \<forall>sh \<in> set shifts. saturated s' day sh"
proof (induction shifts arbitrary: s)
  case Nil
  then show ?case by simp
next
  case (Cons shift shifts)
  have sh: "shift \<in> set SHIFTS" and rest: "set shifts \<subseteq> set SHIFTS"
    using Cons.prems(3) by simp_all
  from Cons.prems(4) obtain t where
    b: "backfill s day shift (int (length (roster s day shift))) = Inr t"
    and c: "coverage_shifts t day shifts = Inr s'"
    by (auto simp: slot_ok[OF Cons.prems(1,2) sh] split: sum.splits)
  have wt: "wf_schedule t"
    using backfill_reaches[OF Cons.prems(1,2) sh b] Cons.prems(1) by (rule reaches_wf)
  have "saturated t day shift"
    unfolding saturated_def using backfill_post[OF Cons.prems(1,2) sh refl b] .
  then have "saturated s' day shift"
    using coverage_shifts_reaches[OF wt Cons.prems(2) rest c] by (rule reaches_saturated[rotated])
  with Cons.IH[OF wt Cons.prems(2) rest c] show ?case by simp
qed

lemma coverage_days_saturated:
  "wf_schedule s \<Longrightarrow> set days \<subseteq> set DAYS \<Longrightarrow> coverage_days s days = Inr s' \<Longrightarrow>
   \<forall>d \<in> set days. \<forall>sh \<in> set SHIFTS. saturated s' d sh"
proof (induction days arbitrary: s)
  case Nil
  then show ?case by simp
next
  case (Cons day days)
  have d: "day \<in> set DAYS" and rest: "set days \<subseteq> set DAYS"
    using Cons.prems(2) by simp_all
  from Cons.prems(3) obtain t where c: "coverage_shifts s day SHIFTS = Inr t"
    and r: "coverage_days t days = Inr s'"
    by (auto split: sum.splits)
  have wt: "wf_schedule t"
    using coverage_shifts_reaches[OF Cons.prems(1) d _ c] Cons.prems(1) by (auto intro: reaches_wf)
  have "\<forall>sh \<in> set SHIFTS. saturated t day sh"
    using coverage_shifts_saturated[OF Cons.prems(1) d _ c] by simp
  then have "\<forall>sh \<in> set SHIFTS. saturated s' day sh"
    using reaches_saturated[OF coverage_days_reaches[OF wt rest r]] by blast
  with Cons.IH[OF wt rest r] show ?case by simp
qed

lemma ensure_minimum_coverage_saturated:
  "wf_schedule s \<Longrightarrow> ensure_minimum_coverage s = Inr s' \<Longrightarrow>
   \<forall>d \<in> set DAYS. \<forall>sh \<in> set SHIFTS. saturated s' d sh"
  unfolding ensure_minimum_coverage_def by (rule coverage_days_saturated) simp_all

subsection \<open>Lookups of registered employees\<close>

lemma registered_init: "registered init"
  by (simp add: registered_def init_def)

lemma registered_add_employee: "registered s \<Longrightarrow> registered (add_employee s name p)"
  by (auto simp: registered_def add_employee_def)

lemma registered_build: "registered s \<Longrightarrow> registered (build s xs)"
  by (induction s xs rule: build.induct) (simp_all add: registered_add_employee)

lemma reaches_registered: "reaches s s' \<Longrightarrow> registered s \<Longrightarrow> registered s'"
  by (simp add: registered_def reaches_employees reaches_preferences)

lemma slot_known: "slot s day shift \<noteq> Inl (UnknownEmployee x)"
  by (simp add: slot_def split: option.splits)

lemma place_known: "place s day shift e \<noteq> Inl (UnknownEmployee x)"
  by (simp add: place_def split: option.splits)

lemma scheduled_in_known: "scheduled_in s e day shifts \<noteq> Inl (UnknownEmployee x)"
  by (induction shifts) (auto simp: slot_known split: sum.splits)

lemma already_scheduled_known: "already_scheduled s e day \<noteq> Inl (UnknownEmployee x)"
  by (simp add: already_scheduled_def scheduled_in_known)

lemma pass1_day_known:
  "preferences s e \<noteq> None \<Longrightarrow> pass1_day s e day \<noteq> Inl (UnknownEmployee x)"
  unfolding pass1_day_def
  by (auto simp: already_scheduled_known place_known
      split: option.splits sum.splits bool.splits list.splits)

lemma pass1_days_known:
  "wf_schedule s \<Longrightarrow> set days \<subseteq> set DAYS \<Longrightarrow> preferences s e \<noteq> None \<Longrightarrow>
   pass1_days s e days \<noteq> Inl (UnknownEmployee x)"
proof (induction days arbitrary: s)
  case Nil
  then show ?case by simp
next
  case (Cons day days)
  show ?case
  proof (cases "pass1_day s e day")
    case (Inl err)
    then show ?thesis
      using pass1_day_known[OF Cons.prems(3), of day x] by auto
  next
    case (Inr r)
    obtain f t where r: "r = (f, t)" by (cases r)
    have "t = s \<or> assigns s t"
      using pass1_day_step[OF Cons.prems(1) _ Inr[unfolded r]] Cons.prems(2) by simp
    then have "reaches s t"
      by (auto intro: reaches_refl reaches_step)
    then have "wf_schedule t" "preferences t e \<noteq> None"
      using Cons.prems(1,3) by (simp_all add: reaches_wf reaches_preferences)
    from Cons.IH[OF this(1) _ this(2)] Cons.prems(2) Inr r show ?thesis
      by (cases f) simp_all
  qed
qed

lemma pass1_known:
  "wf_schedule s \<Longrightarrow> \<forall>e \<in> set es. preferences s e \<noteq> None \<Longrightarrow>
   pass1 s es \<noteq> Inl (UnknownEmployee x)"
proof (induction es arbitrary: s)
  case Nil
  then show ?case by simp
next
  case (Cons e es)
  show ?case
  proof (cases "pass1_days s e DAYS")
    case (Inl err)
    then show ?thesis
      using pass1_days_known[OF Cons.prems(1), of DAYS e x] Cons.prems(2) by auto
  next
    case (Inr t)
    have r: "reaches s t"
      using Cons.prems(1) _ Inr by (rule pass1_days_reaches) simp
    have "wf_schedule t" "\<forall>e \<in> set es. preferences t e \<noteq> None"
      using r Cons.prems by (simp_all add: reaches_wf reaches_preferences)
    from Cons.IH[OF this] Inr show ?thesis by simp
  qed
qed

lemma try_shifts_known: "try_shifts s e day shifts \<noteq> Inl (UnknownEmployee x)"
  by (induction shifts) (auto simp: slot_known place_known split: sum.splits)

lemma resolve_day_known:
  "preferences s e \<noteq> None \<Longrightarrow> resolve_day s e sd day \<noteq> Inl (UnknownEmployee x)"
  unfolding resolve_day_def priority_shifts_def
  by (auto simp: try_shifts_known split: option.splits sum.splits)

lemma resolve_days_known:
  "wf_schedule s \<Longrightarrow> tracked s e sd \<Longrightarrow> preferences s e \<noteq> None \<Longrightarrow>
   resolve_days s e sd days \<noteq> Inl (UnknownEmployee x)"
proof (induction days arbitrary: s sd)
  case Nil
  then show ?case by simp
next
  case (Cons day days)
  show ?case
  proof (cases "resolve_day s e sd day")
    case (Inl err)
    then show ?thesis
      using resolve_day_known[OF Cons.prems(3), of sd day x] by auto
  next
    case (Inr r)
    obtain f t sd' where r: "r = (f, t, sd')" by (cases r)
    note step = resolve_day_step[OF Cons.prems(1,2) Inr[unfolded r]]
    then have "reaches s t"
      by (auto intro: reaches_refl reaches_step)
    then have "wf_schedule t" "preferences t e \<noteq> None"
      using Cons.prems(1,3) by (simp_all add: reaches_wf reaches_preferences)
    from Cons.IH[OF this(1) _ this(2), of sd'] step Inr r show ?thesis
      by (cases f) simp_all
  qed
qed

lemma resolve_employee_known:
  assumes "wf_schedule s" "preferences s e \<noteq> None"
  shows "resolve_employee it s e \<noteq> Inl (UnknownEmployee x)"
proof -
  from assms(2) obtain plan where p: "preferences s e = Some plan" by auto
  obtain sd where c: "collect_days s e DAYS [] = Inr sd"
    using collect_days_set[OF assms(1), of DAYS e "[]"] by auto
  show ?thesis
    unfolding resolve_employee_def
    using p c resolve_days_known[OF assms(1) collect_days_tracked[OF assms(1) c] assms(2)]
    by simp
qed

lemma resolve_loop_known:
  "wf_schedule s \<Longrightarrow> \<forall>e \<in> set es. preferences s e \<noteq> None \<Longrightarrow>
   resolve_loop it k s es \<noteq> Inl (UnknownEmployee x)"
proof (induction es arbitrary: s k)
  case Nil
  then show ?case by simp
next
  case (Cons e es)
  show ?case
  proof (cases "resolve_employee (it k) s e")
    case (Inl err)
    then show ?thesis
      using resolve_employee_known[OF Cons.prems(1), of e "it k" x] Cons.prems(2) by auto
  next
    case (Inr t)
    have r: "reaches s t"
      using Cons.prems(1) Inr by (rule resolve_employee_reaches)
    have "wf_schedule t" "\<forall>e \<in> set es. preferences t e \<noteq> None"
      using r Cons.prems by (simp_all add: reaches_wf reaches_preferences)
    from Cons.IH[OF this] Inr show ?thesis by simp
  qed
qed

lemma assign_shifts_known:
  assumes "wf_schedule s" "registered s"
  shows "assign_shifts it s \<noteq> Inl (UnknownEmployee x)"
proof (cases "pass1 s (employees s)")
  case (Inl err)
  then show ?thesis
    using pass1_known[OF assms(1), of "employees s" x] assms(2)
    by (auto simp: assign_shifts_def registered_def)
next
  case (Inr s1)
  note r1 = pass1_reaches[OF assms(1) Inr]
  have w1: "wf_schedule s1" using r1 assms(1) by (rule reaches_wf)
  obtain s2 where 2: "ensure_minimum_coverage s1 = Inr s2"
    using ensure_minimum_coverage_total[OF w1] by blast
  note r2 = ensure_minimum_coverage_reaches[OF w1 2]
  have w2: "wf_schedule s2" using r2 w1 by (rule reaches_wf)
  have "registered s2"
    using r2 reaches_registered[OF r1 assms(2)] by (rule reaches_registered)
  then have "resolve_conflicts it s2 \<noteq> Inl (UnknownEmployee x)"
    unfolding resolve_conflicts_def registered_def by (intro resolve_loop_known w2)
  then show ?thesis
    by (simp add: assign_shifts_def Inr 2)
qed

subsection \<open>Pass 3 places on days of the plan\<close>

lemma only_planned_refl: "only_planned s s"
  by (simp add: only_planned_def)

lemma only_planned_trans: "only_planned a b \<Longrightarrow> only_planned b c \<Longrightarrow> only_planned a c"
  unfolding only_planned_def by (elim conjE, intro conjI allI impI) (simp, metis)

lemma enumerates_set: "enumerates ord \<Longrightarrow> set (ord xs) = set xs"
  unfolding enumerates_def by (metis set_mset_mset)

lemma iteration_order_enumerates: "iteration_order it \<Longrightarrow> enumerates (it k)"
  by (simp add: iteration_order_def enumerates_def plan_order_def)

lemma missing_days_keys: "day \<in> set (missing_days plan sd) \<Longrightarrow> map_of plan day \<noteq> None"
  unfolding missing_days_def by (auto simp: map_of_eq_None_iff)

lemma resolve_day_place:
  "resolve_day s e sd day = Inr (f, s', sd') \<Longrightarrow>
   s' = s \<or> (\<exists>shift. place s day shift e = Inr s')"
  unfolding resolve_day_def
  by (auto split: if_splits sum.splits option.splits dest!: try_shifts_step)

lemma place_only_planned:
  "place s day shift e = Inr s' \<Longrightarrow> preferences s e = Some plan \<Longrightarrow> map_of plan day \<noteq> None \<Longrightarrow>
   only_planned s s'"
  unfolding only_planned_def
  by (auto simp: place_roster place_preferences split: if_splits)

lemma resolve_days_only_planned:
  "wf_schedule s \<Longrightarrow> tracked s e sd \<Longrightarrow> preferences s e = Some plan \<Longrightarrow>
   \<forall>d \<in> set days. map_of plan d \<noteq> None \<Longrightarrow> resolve_days s e sd days = Inr s' \<Longrightarrow>
   only_planned s s'"
proof (induction days arbitrary: s sd)
  case Nil
  then show ?case by (simp add: only_planned_refl)
next
  case (Cons day days)
  from Cons.prems(5) obtain f t sd' where st: "resolve_day s e sd day = Inr (f, t, sd')"
    by (auto split: sum.splits)
  note step = resolve_day_step[OF Cons.prems(1,2) st]
  have r: "reaches s t"
    using step by (auto intro: reaches_refl reaches_step)
  have o: "only_planned s t"
    using resolve_day_place[OF st] Cons.prems(3,4)
    by (auto intro: only_planned_refl place_only_planned)
  show ?case
  proof (cases f)
    case Next
    with Cons.prems(5) st have "resolve_days t e sd' days = Inr s'" by simp
    moreover have "preferences t e = Some plan"
      using Cons.prems(3) by (simp add: reaches_preferences[OF r])
    ultimately have "only_planned t s'"
      using Cons.IH[OF reaches_wf[OF r Cons.prems(1)], of sd'] step Cons.prems(4) by simp
    with o show ?thesis by (rule only_planned_trans)
  next
    case Break
    with Cons.prems(5) st have "s' = t" by simp
    with o show ?thesis by simp
  qed
qed

lemma resolve_employee_only_planned:
  assumes "wf_schedule s" "enumerates ord" "resolve_employee ord s e = Inr s'"
  shows "only_planned s s'"
proof -
  from assms(3) obtain plan sd where p: "preferences s e = Some plan"
    and c: "collect_days s e DAYS [] = Inr sd"
    and r: "resolve_days s e sd (ord (missing_days plan sd)) = Inr s'"
    unfolding resolve_employee_def by (auto split: option.splits sum.splits)
  have "\<forall>d \<in> set (ord (missing_days plan sd)). map_of plan d \<noteq> None"
    using missing_days_keys by (simp add: enumerates_set[OF assms(2)])
  then show ?thesis
    using resolve_days_only_planned[OF assms(1) collect_days_tracked[OF assms(1) c] p _ r]
    by blast
qed

lemma resolve_loop_only_planned:
  "wf_schedule s \<Longrightarrow> iteration_order it \<Longrightarrow> resolve_loop it k s es = Inr s' \<Longrightarrow>
   only_planned s s'"
proof (induction es arbitrary: s k)
  case Nil
  then show ?case by (simp add: only_planned_refl)
next
  case (Cons e es)
  from Cons.prems(3) obtain t where st: "resolve_employee (it k) s e = Inr t"
    and rest: "resolve_loop it (Suc k) t es = Inr s'"
    by (auto split: sum.splits)
  have "wf_schedule t"
    using resolve_employee_reaches[OF Cons.prems(1) st] Cons.prems(1) by (rule reaches_wf)
  then have "only_planned t s'"
    using Cons.prems(2) rest by (rule Cons.IH)
  with resolve_employee_only_planned[OF Cons.prems(1) iteration_order_enumerates[OF Cons.prems(2)] st]
  show ?case
    by (rule only_planned_trans)
qed

subsection \<open>Pass 3 after plans without empty sequences\<close>

lemma reaches_settled: "reaches s s' \<Longrightarrow> settled s e \<Longrightarrow> settled s' e"
  unfolding settled_def
  using reaches_days_worked[of s s' e] reaches_works_on[of s s' e]
  by (auto simp: reaches_preferences)

lemma reaches_valid_plans: "reaches s s' \<Longrightarrow> valid_plans s \<Longrightarrow> valid_plans s'"
  by (simp add: valid_plans_def reaches_preferences)

lemma pass1_day_progress:
  assumes "wf_schedule s" "valid_plans s" "day \<in> set DAYS" "pass1_day s e day = Inr (f, t)"
  shows "(f = Break \<longrightarrow> MAX_DAYS_PER_WEEK \<le> employee_days_worked t e) \<and>
         (f = Next \<longrightarrow> (\<forall>plan. preferences s e = Some plan \<longrightarrow> map_of plan day \<noteq> None \<longrightarrow>
            works_on t e day))"
proof (cases "MAX_DAYS_PER_WEEK \<le> employee_days_worked s e")
  case True
  with assms(4) show ?thesis by (simp add: pass1_day_def)
next
  case False
  from assms(4) False obtain plan where p: "preferences s e = Some plan"
    by (auto simp: pass1_day_def split: option.splits)
  show ?thesis
  proof (cases "map_of plan day")
    case None
    with assms(4) False p show ?thesis by (simp add: pass1_day_def)
  next
    case (Some shifts)
    then have "(day, shifts) \<in> set plan" by (rule map_of_SomeD)
    with assms(2) p have "shifts \<noteq> []" unfolding valid_plans_def by blast
    then obtain sh rest where sh: "shifts = sh # rest" by (cases shifts) auto
    show ?thesis
    proof (cases "works_on s e day")
      case True
      with assms(4) False p Some show ?thesis
        by (simp add: pass1_day_def already_scheduled_ok[OF assms(1,3)])
    next
      case free: False
      with assms(4) False p Some sh have pl: "place s day sh e = Inr t" and "f = Next"
        by (auto simp: pass1_day_def already_scheduled_ok[OF assms(1,3)] split: sum.splits)
      then show ?thesis
        by (simp add: works_on_place[OF pl assms(1)])
    qed
  qed
qed

lemma pass1_days_progress:
  "wf_schedule s \<Longrightarrow> valid_plans s \<Longrightarrow> set days \<subseteq> set DAYS \<Longrightarrow> pass1_days s e days = Inr s' \<Longrightarrow>
   MAX_DAYS_PER_WEEK \<le> employee_days_worked s' e \<or>
   (\<forall>plan. preferences s e = Some plan \<longrightarrow>
      (\<forall>d \<in> set days. map_of plan d \<noteq> None \<longrightarrow> works_on s' e d))"
proof (induction days arbitrary: s)
  case Nil
  then show ?case by simp
next
  case (Cons day days)
  from Cons.prems(4) obtain f t where st: "pass1_day s e day = Inr (f, t)"
    by (auto split: sum.splits)
  have d: "day \<in> set DAYS" using Cons.prems(3) by simp
  note pr = pass1_day_progress[OF Cons.prems(1,2) d st]
  have r: "reaches s t"
    using pass1_day_step[OF Cons.prems(1) d st] by (auto intro: reaches_refl reaches_step)
  show ?case
  proof (cases f)
    case Break
    with Cons.prems(4) st pr show ?thesis by simp
  next
    case Next
    with Cons.prems(4) st have rest: "pass1_days t e days = Inr s'" by simp
    have wt: "wf_schedule t" using r Cons.prems(1) by (rule reaches_wf)
    have vt: "valid_plans t" using r Cons.prems(2) by (rule reaches_valid_plans)
    have r2: "reaches t s'"
      using wt _ rest by (rule pass1_days_reaches) (use Cons.prems(3) in simp)
    from Cons.IH[OF wt vt _ rest] Cons.prems(3)
    have ih: "MAX_DAYS_PER_WEEK \<le> employee_days_worked s' e \<or>
      (\<forall>plan. preferences s e = Some plan \<longrightarrow>
        (\<forall>d \<in> set days. map_of plan d \<noteq> None \<longrightarrow> works_on s' e d))"
      by (simp add: reaches_preferences[OF r])
    have "works_on s' e day" if "preferences s e = Some plan" "map_of plan day \<noteq> None" for plan
      using pr Next that reaches_works_on[OF r2] by blast
    with ih show ?thesis by auto
  qed
qed

lemma pass1_settled:
  "wf_schedule s \<Longrightarrow> valid_plans s \<Longrightarrow> pass1 s es = Inr s' \<Longrightarrow> \<forall>e \<in> set es. settled s' e"
proof (induction es arbitrary: s)
  case Nil
  then show ?case by simp
next
  case (Cons e es)
  from Cons.prems(3) obtain t where st: "pass1_days s e DAYS = Inr t" and rest: "pass1 t es = Inr s'"
    by (auto split: sum.splits)
  have r: "reaches s t"
    using Cons.prems(1) _ st by (rule pass1_days_reaches) simp
  have wt: "wf_schedule t" using r Cons.prems(1) by (rule reaches_wf)
  have vt: "valid_plans t" using r Cons.prems(2) by (rule reaches_valid_plans)
  have "settled t e"
  proof (cases "MAX_DAYS_PER_WEEK \<le> employee_days_worked t e")
    case True
    then show ?thesis by (simp add: settled_def)
  next
    case nc: False
    have "works_on t e d" if p: "preferences t e = Some plan" and d: "d \<in> fst ` set plan"
      for plan d
    proof -
      have ps: "preferences s e = Some plan"
        using p by (simp add: reaches_preferences[OF r])
      from d obtain shifts where "(d, shifts) \<in> set plan" by auto
      with Cons.prems(2) ps have "d \<in> set DAYS" unfolding valid_plans_def by blast
      moreover have "map_of plan d \<noteq> None"
        using d by (simp add: map_of_eq_None_iff)
      ultimately show ?thesis
        using pass1_days_progress[OF Cons.prems(1,2) _ st] nc ps by auto
    qed
    then show ?thesis unfolding settled_def by blast
  qed
  then have "settled s' e"
    using pass1_reaches[OF wt rest] by (rule reaches_settled[rotated])
  with Cons.IH[OF wt vt rest] show ?case by simp
qed

lemma resolve_days_capped:
  "MAX_DAYS_PER_WEEK \<le> employee_days_worked s e \<Longrightarrow> resolve_days s e sd days = Inr s"
  by (cases days) (simp_all add: resolve_day_def)

lemma enumerates_Nil: "enumerates ord \<Longrightarrow> ord [] = []"
  unfolding enumerates_def by (metis mset_zero_iff)

lemma resolve_employee_settled:
  assumes "wf_schedule s" "enumerates ord" "settled s e" "preferences s e = Some plan"
  shows "resolve_employee ord s e = Inr s"
proof -
  obtain sd where c: "collect_days s e DAYS [] = Inr sd"
    and sd: "set sd = {d \<in> set DAYS. works_on s e d}"
    using collect_days_set[OF assms(1), of DAYS e "[]"] by auto
  show ?thesis
  proof (cases "MAX_DAYS_PER_WEEK \<le> employee_days_worked s e")
    case True
    then show ?thesis
      by (simp add: resolve_employee_def assms(4) c resolve_days_capped)
  next
    case False
    with assms(3,4) have "\<forall>d \<in> fst ` set plan. works_on s e d"
      unfolding settled_def by blast
    then have "\<forall>d \<in> fst ` set plan. d \<in> set sd"
      using works_on_outside[OF assms(1)] sd by blast
    then have "missing_days plan sd = []"
      unfolding missing_days_def by (auto simp: filter_empty_conv)
    then show ?thesis
      by (simp add: resolve_employee_def assms(4) c enumerates_Nil[OF assms(2)])
  qed
qed

lemma resolve_loop_settled:
  assumes "wf_schedule s" "iteration_order it1" "iteration_order it2" "\<forall>e \<in> set es. settled s e"
  shows "resolve_loop it1 k1 s es = resolve_loop it2 k2 s es"
  using assms(4)
proof (induction es arbitrary: k1 k2)
  case Nil
  show ?case by simp
next
  case (Cons e es)
  show ?case
  proof (cases "preferences s e")
    case None
    then show ?thesis by (simp add: resolve_employee_def)
  next
    case (Some plan)
    have "resolve_employee (it1 k1) s e = Inr s" "resolve_employee (it2 k2) s e = Inr s"
      using Cons.prems Some assms(1) iteration_order_enumerates[OF assms(2)]
        iteration_order_enumerates[OF assms(3)]
      by (simp_all add: resolve_employee_settled)
    with Cons show ?thesis by simp
  qed
qed

subsection \<open>The run returns on validated input\<close>

text \<open>With registered employees and plans that map days of the week to non-empty
  sequences of known shifts, the three passes return a state, and Pass 3 returns the
  state it was given.\<close>

lemma reaches_known_shifts: "reaches s s' \<Longrightarrow> known_shifts s \<Longrightarrow> known_shifts s'"
  by (simp add: known_shifts_def reaches_preferences)

lemma pass1_day_total:
  assumes "wf_schedule s" "known_shifts s" "day \<in> set DAYS" "preferences s e \<noteq> None"
  shows "\<exists>f t. pass1_day s e day = Inr (f, t)"
proof -
  from assms(4) obtain plan where p: "preferences s e = Some plan" by auto
  show ?thesis
  proof (cases "map_of plan day")
    case None
    with p show ?thesis by (simp add: pass1_day_def)
  next
    case (Some shifts)
    show ?thesis
    proof (cases shifts)
      case Nil
      with p Some show ?thesis
        by (simp add: pass1_day_def already_scheduled_ok[OF assms(1,3)] split: bool.splits)
    next
      case (Cons sh rest)
      have "(day, shifts) \<in> set plan" using Some by (rule map_of_SomeD)
      with assms(2) p Cons have "sh \<in> set SHIFTS"
        unfolding known_shifts_def by fastforce
      then obtain t where "place s day sh e = Inr t"
        using place_ok[OF assms(1,3)] by blast
      with p Some Cons show ?thesis
        by (simp add: pass1_day_def already_scheduled_ok[OF assms(1,3)] split: bool.splits)
    qed
  qed
qed

lemma pass1_days_total:
  "wf_schedule s \<Longrightarrow> known_shifts s \<Longrightarrow> set days \<subseteq> set DAYS \<Longrightarrow> preferences s e \<noteq> None \<Longrightarrow>
   \<exists>s'. pass1_days s e days = Inr s'"
proof (induction days arbitrary: s)
  case Nil
  then show ?case by simp
next
  case (Cons day days)
  have d: "day \<in> set DAYS" using Cons.prems(3) by simp
  obtain f t where st: "pass1_day s e day = Inr (f, t)"
    using pass1_day_total[OF Cons.prems(1,2) d Cons.prems(4)] by blast
  have r: "reaches s t"
    using pass1_day_step[OF Cons.prems(1) d st] by (auto intro: reaches_refl reaches_step)
  have "\<exists>s'. pass1_days t e days = Inr s'"
    using Cons.IH[OF reaches_wf[OF r Cons.prems(1)] reaches_known_shifts[OF r Cons.prems(2)]]
      Cons.prems(3,4) by (simp add: reaches_preferences[OF r])
  with st show ?case by (cases f) simp_all
qed

lemma pass1_total:
  "wf_schedule s \<Longrightarrow> known_shifts s \<Longrightarrow> \<forall>e \<in> set es. preferences s e \<noteq> None \<Longrightarrow>
   \<exists>s'. pass1 s es = Inr s'"
proof (induction es arbitrary: s)
  case Nil
  then show ?case by simp
next
  case (Cons e es)
  obtain t where st: "pass1_days s e DAYS = Inr t"
    using pass1_days_total[OF Cons.prems(1,2), of DAYS e] Cons.prems(3) by auto
  have r: "reaches s t"
    using Cons.prems(1) _ st by (rule pass1_days_reaches) simp
  have "\<exists>s'. pass1 t es = Inr s'"
    using Cons.IH[OF reaches_wf[OF r Cons.prems(1)] reaches_known_shifts[OF r Cons.prems(2)]]
      Cons.prems(3) by (simp add: reaches_preferences[OF r])
  with st show ?case by simp
qed

lemma resolve_loop_identity:
  assumes "wf_schedule s" "iteration_order it"
  shows "\<forall>e \<in> set es. settled s e \<and> preferences s e \<noteq> None \<Longrightarrow> resolve_loop it k s es = Inr s"
proof (induction es arbitrary: k)
  case Nil
  show ?case by simp
next
  case (Cons e es)
  then obtain plan where "preferences s e = Some plan" by auto
  then have "resolve_employee (it k) s e = Inr s"
    using Cons.prems assms(1) iteration_order_enumerates[OF assms(2)]
    by (simp add: resolve_employee_settled)
  with Cons show ?case by simp
qed

lemma assign_shifts_returns:
  assumes "wf_schedule s" "registered s" "valid_plans s" "known_shifts s" "iteration_order it"
  shows "\<exists>s1 s2. pass1 s (employees s) = Inr s1 \<and> ensure_minimum_coverage s1 = Inr s2 \<and>
           resolve_conflicts it s2 = Inr s2 \<and> assign_shifts it s = Inr s2"
proof -
  obtain s1 where 1: "pass1 s (employees s) = Inr s1"
    using pass1_total[OF assms(1,4), of "employees s"] assms(2) unfolding registered_def by blast
  note r1 = pass1_reaches[OF assms(1) 1]
  have w1: "wf_schedule s1" using r1 assms(1) by (rule reaches_wf)
  obtain s2 where 2: "ensure_minimum_coverage s1 = Inr s2"
    using ensure_minimum_coverage_total[OF w1] by blast
  note r2 = ensure_minimum_coverage_reaches[OF w1 2]
  have w2: "wf_schedule s2" using r2 w1 by (rule reaches_wf)
  have "\<forall>e \<in> set (employees s). settled s1 e"
    using assms(1,3) 1 by (rule pass1_settled)
  then have "\<forall>e \<in> set (employees s2). settled s2 e \<and> preferences s2 e \<noteq> None"
    using reaches_settled[OF r2] assms(2) unfolding registered_def
    by (simp add: reaches_employees[OF r1] reaches_employees[OF r2]
        reaches_preferences[OF r1] reaches_preferences[OF r2])
  then have 3: "resolve_conflicts it s2 = Inr s2"
    unfolding resolve_conflicts_def by (rule resolve_loop_identity[OF w2 assms(5)])
  show ?thesis
    using 1 2 3 by (simp add: assign_shifts_def)
qed

subsection \<open>The passes visit in the order of the specification\<close>

lemma spec_pass1_cong:
  "\<forall>x \<in> fst ` set visits. (x \<in> set st1) = (x \<in> set st2) \<Longrightarrow>
   spec_pass1 s st1 visits = spec_pass1 s st2 visits"
proof (induction visits arbitrary: s st1 st2)
  case Nil
  show ?case by simp
next
  case (Cons v visits)
  obtain e d where v: "v = (e, d)" by (cases v)
  have m: "(e \<in> set st1) = (e \<in> set st2)"
    using Cons.prems v by simp
  have a: "spec_pass1 t st1 visits = spec_pass1 t st2 visits" for t
    using Cons.prems by (intro Cons.IH) simp
  have b: "spec_pass1 t (e # st1) visits = spec_pass1 t (e # st2) visits" for t
    using Cons.prems by (intro Cons.IH) simp
  show ?case
    using m a b by (simp add: v split: sum.splits flow.splits prod.splits)
qed

lemma spec_pass1_skip:
  "e \<in> set stopped \<Longrightarrow>
   spec_pass1 s stopped (map (Pair e) ds @ rest) = spec_pass1 s stopped rest"
  by (induction ds) simp_all

lemma spec_pass1_days:
  "e \<notin> set stopped \<Longrightarrow> e \<notin> fst ` set rest \<Longrightarrow>
   spec_pass1 s stopped (map (Pair e) ds @ rest) =
     (case pass1_days s e ds of Inl err \<Rightarrow> Inl err | Inr s' \<Rightarrow> spec_pass1 s' stopped rest)"
proof (induction ds arbitrary: s)
  case Nil
  show ?case by simp
next
  case (Cons d ds)
  have brk: "spec_pass1 t (e # stopped) (map (Pair e) ds @ rest) = spec_pass1 t stopped rest" for t
  proof -
    have "spec_pass1 t (e # stopped) (map (Pair e) ds @ rest) = spec_pass1 t (e # stopped) rest"
      by (rule spec_pass1_skip) simp
    also have "\<dots> = spec_pass1 t stopped rest"
      using Cons.prems(2) by (intro spec_pass1_cong) auto
    finally show ?thesis .
  qed
  show ?case
    using Cons.prems(1) Cons.IH[OF Cons.prems] brk
    by (simp split: sum.splits flow.splits prod.splits)
qed

lemma pass1_spec:
  "distinct es \<Longrightarrow> set stopped \<inter> set es = {} \<Longrightarrow>
   pass1 s es = spec_pass1 s stopped (List.product es DAYS)"
proof (induction es arbitrary: s)
  case Nil
  show ?case by simp
next
  case (Cons e es)
  have 1: "e \<notin> set stopped" and 2: "e \<notin> fst ` set (List.product es DAYS)"
    using Cons.prems by auto
  have "pass1 t es = spec_pass1 t stopped (List.product es DAYS)" for t
    using Cons.prems by (intro Cons.IH) auto
  then show ?case
    by (simp add: spec_pass1_days[OF 1 2] split: sum.splits)
qed

lemma coverage_shifts_spec:
  "spec_pass2 s (map (Pair day) shifts @ rest) =
     (case coverage_shifts s day shifts of Inl e \<Rightarrow> Inl e | Inr s' \<Rightarrow> spec_pass2 s' rest)"
  by (induction shifts arbitrary: s) (simp_all split: sum.splits)

lemma coverage_days_spec: "coverage_days s days = spec_pass2 s (List.product days SHIFTS)"
  by (induction days arbitrary: s) (simp_all add: coverage_shifts_spec split: sum.splits)

lemma resolve_loop_spec: "resolve_loop it k s es = spec_pass3 it s (List.enumerate k es)"
  by (induction es arbitrary: s k) (simp_all split: sum.splits)

lemma distinct_add_employee: "distinct (employees s) \<Longrightarrow> distinct (employees (add_employee s name p))"
  by (simp add: add_employee_def)

lemma distinct_build: "distinct (employees s) \<Longrightarrow> distinct (employees (build s xs))"
  by (induction s xs rule: build.induct) (simp_all add: distinct_add_employee)

text \<open>Whatever sets the loops of Pass 3 iterate and in whatever order each of them is
  visited, some \<open>it\<close> gives exactly these orders.\<close>

lemma every_choice_is_an_order:
  assumes "\<forall>k. mset (visit k) = mset (elems k)"
  shows "\<exists>it. iteration_order it \<and> (\<forall>k. it k (elems k) = visit k)"
proof -
  let ?it = "\<lambda>k xs. if mset xs = mset (visit k) then visit k else xs"
  have "iteration_order ?it"
    by (simp add: iteration_order_def enumerates_def)
  moreover have "\<forall>k. ?it k (elems k) = visit k"
    using assms by simp
  ultimately show ?thesis by blast
qed

text \<open>The runs of Pass 3 with a free choice of order at every employee are exactly the
  runs of \<open>resolve_conflicts\<close> for the families of orders.\<close>

lemma resolve_loop_cong:
  "\<forall>j \<ge> k. it1 j = it2 j \<Longrightarrow> resolve_loop it1 k s es = resolve_loop it2 k s es"
proof (induction es arbitrary: k s)
  case Nil
  show ?case by simp
next
  case (Cons e es)
  have "resolve_loop it1 (Suc k) t es = resolve_loop it2 (Suc k) t es" for t
    using Cons.prems by (intro Cons.IH) simp
  with Cons.prems show ?case
    by (simp split: sum.splits)
qed

lemma resolve_loop_runs:
  "iteration_order it \<Longrightarrow> pass3_runs s es (resolve_loop it k s es)"
proof (induction es arbitrary: k s)
  case Nil
  show ?case by (simp add: pass3_runs.finished)
next
  case (Cons e es)
  note en = iteration_order_enumerates[OF Cons.prems, of k]
  show ?case
  proof (cases "resolve_employee (it k) s e")
    case (Inl err)
    with en show ?thesis by (simp add: pass3_runs.raises)
  next
    case (Inr t)
    with en Cons.IH[OF Cons.prems, of t "Suc k"] show ?thesis
      by (simp add: pass3_runs.goes_on)
  qed
qed

lemma runs_resolve_loop:
  "pass3_runs s es r \<Longrightarrow> \<exists>it. iteration_order it \<and> resolve_loop it k s es = r"
proof (induction arbitrary: k rule: pass3_runs.induct)
  case (finished s)
  have "iteration_order plan_order"
    by (simp add: iteration_order_def enumerates_def plan_order_def)
  then show ?case by auto
next
  case (raises ord s employee e rest)
  have "iteration_order (\<lambda>j. ord)"
    using raises(1) by (simp add: iteration_order_def)
  moreover have "resolve_loop (\<lambda>j. ord) k s (employee # rest) = Inl e"
    using raises(2) by simp
  ultimately show ?case by blast
next
  case (goes_on ord s employee s' rest r)
  from goes_on.IH[of "Suc k"] obtain it where it: "iteration_order it"
    and run: "resolve_loop it (Suc k) s' rest = r"
    by blast
  let ?it = "\<lambda>j. if j = k then ord else it j"
  have "iteration_order ?it"
    using it goes_on(1) by (simp add: iteration_order_def)
  moreover have "resolve_loop ?it (Suc k) s' rest = resolve_loop it (Suc k) s' rest"
    by (rule resolve_loop_cong) simp
  then have "resolve_loop ?it k s (employee # rest) = r"
    using goes_on(2) run by simp
  ultimately show ?case by blast
qed

lemma pass3_runs_iff:
  "pass3_runs s (employees s) r \<longleftrightarrow> (\<exists>it. iteration_order it \<and> resolve_conflicts it s = r)"
  unfolding resolve_conflicts_def
  using runs_resolve_loop[of s "employees s" r 0] resolve_loop_runs[of _ s "employees s" 0]
  by blast

lemma iteration_order_plan_order: "iteration_order plan_order"
  by (simp add: iteration_order_def enumerates_def plan_order_def)

lemma assign_runs_iff:
  "assign_runs s r \<longleftrightarrow> (\<exists>it. iteration_order it \<and> assign_shifts it s = r)"
proof (cases "pass1 s (employees s)")
  case (Inl err)
  then show ?thesis
    using iteration_order_plan_order by (auto simp: assign_runs_def assign_shifts_def)
next
  case (Inr s1)
  show ?thesis
  proof (cases "ensure_minimum_coverage s1")
    case (Inl err)
    then show ?thesis
      using Inr iteration_order_plan_order by (auto simp: assign_runs_def assign_shifts_def)
  next
    case s2: (Inr s2)
    show ?thesis
      using Inr s2 by (simp add: assign_runs_def assign_shifts_def pass3_runs_iff)
  qed
qed

lemma pass3_runs_reaches:
  assumes "wf_schedule s" "pass3_runs s (employees s) (Inr s')"
  shows "reaches s s'"
proof -
  from assms(2) obtain it where "resolve_conflicts it s = Inr s'"
    unfolding pass3_runs_iff by blast
  with assms(1) show ?thesis by (rule resolve_conflicts_reaches)
qed

subsection \<open>The example rosters\<close>

lemma assign_shifts_InrE:
  assumes "assign_shifts it s = Inr s3"
  obtains s1 s2 where "pass1 s (employees s) = Inr s1" "ensure_minimum_coverage s1 = Inr s2"
    "resolve_conflicts it s2 = Inr s3"
  using assms unfolding assign_shifts_def by (auto split: sum.splits)

lemma not_isl_Inr: "\<not> isl r \<Longrightarrow> \<exists>x. r = Inr x"
  by (cases r) simp_all

lemma wf_scenario_a: "wf_schedule scenario_a"
  unfolding scenario_a_def by (simp only: wf_build wf_init)

lemma wf_staff7: "wf_schedule staff7"
  unfolding staff7_def by (simp only: wf_build wf_init)

lemma staff7_runs: "\<not> isl (assign_shifts plan_order staff7)"
  by code_simp

lemma staff7_passes:
  obtains s1 s2 s3 where "pass1 staff7 (employees staff7) = Inr s1"
    "ensure_minimum_coverage s1 = Inr s2" "resolve_conflicts plan_order s2 = Inr s3"
proof -
  obtain s3 where "assign_shifts plan_order staff7 = Inr s3"
    using not_isl_Inr[OF staff7_runs] by blast
  then show ?thesis
    by (rule assign_shifts_InrE) (rule that)
qed

lemma is_placedD: "(case r of Inr (Some _) \<Rightarrow> True | _ \<Rightarrow> False) \<Longrightarrow> \<exists>s'. r = Inr (Some s')"
  by (auto split: sum.splits option.splits)

lemma is_InrD: "\<not> isl r \<Longrightarrow> \<exists>f s'. r = Inr (f, s')"
  by (cases r) auto

lemma wf_after_pass1: "wf_schedule s \<Longrightarrow> wf_schedule (after_pass1 s es)"
  unfolding after_pass1_def
  by (auto split: sum.splits dest: pass1_reaches reaches_wf)

lemma wf_ranked3: "wf_schedule ranked3"
  unfolding ranked3_def by (simp only: wf_build wf_init)

lemma wf_before_pass3:
  assumes "wf_schedule s"
  shows "wf_schedule (before_pass3 s)"
proof (cases "pass1 s (employees s)")
  case (Inl err)
  then show ?thesis using assms by (simp add: before_pass3_def)
next
  case (Inr s1)
  have w1: "wf_schedule s1"
    using pass1_reaches[OF assms Inr] assms by (rule reaches_wf)
  show ?thesis
  proof (cases "ensure_minimum_coverage s1")
    case (Inl err)
    then show ?thesis using assms Inr by (simp add: before_pass3_def)
  next
    case s2: (Inr s2)
    have "wf_schedule s2"
      using ensure_minimum_coverage_reaches[OF w1 s2] w1 by (rule reaches_wf)
    then show ?thesis using Inr s2 by (simp add: before_pass3_def)
  qed
qed

lemma valid_plans_scenario_a: "valid_plans scenario_a"
  by (auto simp: valid_plans_def scenario_a_def add_employee_def init_def DAYS_def
      split: if_splits)

lemma wf_staff8: "wf_schedule staff8"
  unfolding staff8_def by (simp only: wf_build wf_init)

lemma staff8_runs: "\<not> isl (assign_shifts by_turns staff8)"
  by code_simp

lemma staff8_passes:
  obtains s1 s2 s3 where "pass1 staff8 (employees staff8) = Inr s1"
    "ensure_minimum_coverage s1 = Inr s2" "resolve_conflicts by_turns s2 = Inr s3"
proof -
  obtain s3 where "assign_shifts by_turns staff8 = Inr s3"
    using not_isl_Inr[OF staff8_runs] by blast
  then show ?thesis
    by (rule assign_shifts_InrE) (rule that)
qed

lemma iteration_order_by_turns: "iteration_order by_turns"
  by (simp add: iteration_order_def enumerates_def by_turns_def)

lemma distinct_scenario_a: "distinct (employees scenario_a)"
  unfolding scenario_a_def by (rule distinct_build) (simp add: init_def)

section \<open>Properties of the specification\<close>

text \<open>
  C1 (no double-booking). From a schedule in which nobody is booked twice on a day, in
  particular from the empty one, the state after Pass 1, the state after Pass 2 and the
  state after Pass 3 of \<open>assign_shifts\<close> each list every employee in at most one shift
  of every day. This holds for every run of Pass 3, in whatever order each employee's set
  of missing days is visited: for every family of orders \<open>it\<close> and for every run of
  \<open>pass3_runs\<close>.
\<close>

theorem no_double_booking_passes:
  assumes "wf_schedule s" "no_double_booking s"
  shows "\<forall>s1. pass1 s (employees s) = Inr s1 \<longrightarrow>
           no_double_booking s1 \<and>
           (\<forall>s2. ensure_minimum_coverage s1 = Inr s2 \<longrightarrow>
              no_double_booking s2 \<and>
              (\<forall>s3. resolve_conflicts it s2 = Inr s3 \<longrightarrow> no_double_booking s3) \<and>
              (\<forall>s3. pass3_runs s2 (employees s2) (Inr s3) \<longrightarrow> no_double_booking s3))"
proof (intro allI impI)
  fix s1 assume 1: "pass1 s (employees s) = Inr s1"
  note r1 = pass1_reaches[OF assms(1) 1]
  have c1: "no_double_booking s1"
    using r1 assms by (rule reaches_no_double_booking)
  have w1: "wf_schedule s1"
    using r1 assms(1) by (rule reaches_wf)
  have rest: "no_double_booking s2 \<and>
      (\<forall>s3. resolve_conflicts it s2 = Inr s3 \<longrightarrow> no_double_booking s3) \<and>
      (\<forall>s3. pass3_runs s2 (employees s2) (Inr s3) \<longrightarrow> no_double_booking s3)"
    if 2: "ensure_minimum_coverage s1 = Inr s2" for s2
  proof -
    note r2 = ensure_minimum_coverage_reaches[OF w1 2]
    have c2: "no_double_booking s2"
      using r2 w1 c1 by (rule reaches_no_double_booking)
    have w2: "wf_schedule s2"
      using r2 w1 by (rule reaches_wf)
    have a: "no_double_booking s3" if "resolve_conflicts it s2 = Inr s3" for s3
      using resolve_conflicts_reaches[OF w2 that] w2 c2 by (rule reaches_no_double_booking)
    have b: "no_double_booking s3" if "pass3_runs s2 (employees s2) (Inr s3)" for s3
      using pass3_runs_reaches[OF w2 that] w2 c2 by (rule reaches_no_double_booking)
    show ?thesis
      using c2 a b by blast
  qed
  show "no_double_booking s1 \<and>
           (\<forall>s2. ensure_minimum_coverage s1 = Inr s2 \<longrightarrow>
              no_double_booking s2 \<and>
              (\<forall>s3. resolve_conflicts it s2 = Inr s3 \<longrightarrow> no_double_booking s3) \<and>
              (\<forall>s3. pass3_runs s2 (employees s2) (Inr s3) \<longrightarrow> no_double_booking s3))"
    using c1 rest by blast
qed

theorem no_double_booking_passes_witness:
  "wf_schedule staff8 \<and> no_double_booking staff8 \<and>
   (\<exists>s1 s2 s3. pass1 staff8 (employees staff8) = Inr s1 \<and>
      ensure_minimum_coverage s1 = Inr s2 \<and> resolve_conflicts by_turns s2 = Inr s3 \<and>
      pass3_runs s2 (employees s2) (Inr s3) \<and>
      no_double_booking s1 \<and> no_double_booking s2 \<and> no_double_booking s3)"
proof -
  have n: "no_double_booking staff8"
    unfolding staff8_def by (rule no_double_booking_init)
  obtain s1 s2 s3 where "pass1 staff8 (employees staff8) = Inr s1"
    "ensure_minimum_coverage s1 = Inr s2" "resolve_conflicts by_turns s2 = Inr s3"
    by (rule staff8_passes)
  moreover from this have "pass3_runs s2 (employees s2) (Inr s3)"
    unfolding pass3_runs_iff using iteration_order_by_turns by blast
  moreover note no_double_booking_passes[OF wf_staff8 n, of by_turns] wf_staff8 n
  ultimately show ?thesis
    by blast
qed

text \<open>
  C2 (work-day cap). From a state in which no counter exceeds \<open>MAX_DAYS_PER_WEEK\<close>,
  in particular from the empty one, every single assignment keeps all counters within the
  cap: one iteration of the Pass 1 day loop, one successful scan of Pass 2 and one iteration
  of the Pass 3 day loop each perform at most one assignment and end in a state within the
  cap; so do Pass 1, Pass 2 after it and Pass 3 after that.
\<close>

theorem cap_respected_throughout:
  assumes "wf_schedule s" "cap_respected s"
  shows "(\<forall>e day f s'. pass1_day s e day = Inr (f, s') \<longrightarrow> cap_respected s') \<and>
         (\<forall>day shift es s'. find_available s day shift es = Inr (Some s') \<longrightarrow> cap_respected s') \<and>
         (\<forall>e sd day f s' sd'. resolve_day s e sd day = Inr (f, s', sd') \<longrightarrow> cap_respected s') \<and>
         (\<forall>s1. pass1 s (employees s) = Inr s1 \<longrightarrow>
            cap_respected s1 \<and>
            (\<forall>s2. ensure_minimum_coverage s1 = Inr s2 \<longrightarrow>
               cap_respected s2 \<and>
               (\<forall>s3. resolve_conflicts it s2 = Inr s3 \<longrightarrow> cap_respected s3)))"
proof (intro conjI allI impI)
  fix e day f s' assume "pass1_day s e day = Inr (f, s')"
  with assms(2) show "cap_respected s'" by (rule pass1_day_cap_respected)
next
  fix day shift es s' assume "find_available s day shift es = Inr (Some s')"
  with assms(2) show "cap_respected s'" by (rule find_available_cap_respected)
next
  fix e sd day f s' sd' assume "resolve_day s e sd day = Inr (f, s', sd')"
  with assms(2) show "cap_respected s'" by (rule resolve_day_cap_respected)
next
  fix s1 assume 1: "pass1 s (employees s) = Inr s1"
  note r1 = pass1_reaches[OF assms(1) 1]
  show c1: "cap_respected s1"
    using r1 assms by (rule reaches_cap_respected)
  have w1: "wf_schedule s1"
    using r1 assms(1) by (rule reaches_wf)
  fix s2 assume 2: "ensure_minimum_coverage s1 = Inr s2"
  note r2 = ensure_minimum_coverage_reaches[OF w1 2]
  show c2: "cap_respected s2"
    using r2 w1 c1 by (rule reaches_cap_respected)
  have w2: "wf_schedule s2"
    using r2 w1 by (rule reaches_wf)
  fix s3 assume 3: "resolve_conflicts it s2 = Inr s3"
  show "cap_respected s3"
    using resolve_conflicts_reaches[OF w2 3] w2 c2 by (rule reaches_cap_respected)
qed

theorem cap_respected_throughout_witness:
  "wf_schedule staff7 \<and> cap_respected staff7 \<and>
   (\<exists>f s'. pass1_day staff7 ''A'' ''Tuesday'' = Inr (f, s') \<and> cap_respected s') \<and>
   (\<exists>s'. find_available staff7 ''Monday'' ''Morning'' (employees staff7) = Inr (Some s') \<and>
      cap_respected s') \<and>
   (\<exists>f s' sd'. resolve_day staff7 ''X'' [] ''Tuesday'' = Inr (f, s', sd') \<and> cap_respected s') \<and>
   (\<exists>s1 s2 s3. pass1 staff7 (employees staff7) = Inr s1 \<and>
      ensure_minimum_coverage s1 = Inr s2 \<and> resolve_conflicts plan_order s2 = Inr s3 \<and>
      cap_respected s1 \<and> cap_respected s2 \<and> cap_respected s3)"
proof -
  have c: "cap_respected staff7"
    unfolding staff7_def by (rule cap_respected_init)
  note t = cap_respected_throughout[OF wf_staff7 c, of plan_order]
  have "\<not> isl (pass1_day staff7 ''A'' ''Tuesday'')"
    by code_simp
  then obtain f1 t1 where 1: "pass1_day staff7 ''A'' ''Tuesday'' = Inr (f1, t1)"
    using is_InrD by blast
  have "case find_available staff7 ''Monday'' ''Morning'' (employees staff7) of
          Inr (Some _) \<Rightarrow> True | _ \<Rightarrow> False"
    by code_simp
  then obtain t2 where 2: "find_available staff7 ''Monday'' ''Morning'' (employees staff7) = Inr (Some t2)"
    using is_placedD by blast
  have "\<not> isl (resolve_day staff7 ''X'' [] ''Tuesday'')"
    by code_simp
  then obtain f3 t3 sd3 where 3: "resolve_day staff7 ''X'' [] ''Tuesday'' = Inr (f3, t3, sd3)"
    by (cases "resolve_day staff7 ''X'' [] ''Tuesday''") auto
  obtain s1 s2 s3 where 4: "pass1 staff7 (employees staff7) = Inr s1"
    "ensure_minimum_coverage s1 = Inr s2" "resolve_conflicts plan_order s2 = Inr s3"
    by (rule staff7_passes)
  show ?thesis
    using t wf_staff7 c 1 2 3 4 by blast
qed

text \<open>
  C3 (determinism and visiting order), as the code has it. When every plan maps only
  days of \<open>DAYS\<close> to non-empty shift sequences, the outcome of \<open>assign_shifts\<close>,
  schedule, counters or error, is the same whatever the orders in which Pass 3 iterates
  its sets: it is determined by the registration list and the preference dictionaries,
  and \<open>assign_runs\<close> has one outcome.
  Pass 1 visits the employees in registration order and for each the days from Monday to
  Sunday, leaving out the days after a break (the names of the list are distinct, as
  \<open>add_employee\<close> keeps them). Pass 2 visits the slots day by day in
  calendar order, the three shifts of a day in their fixed order, and scans the
  employees in registration order. Pass 3 visits the employees in registration order, and
  for each the missing days in the iteration order of that employee's set.
\<close>

theorem determinism_and_visiting_order:
  assumes "wf_schedule s"
  shows "(valid_plans s \<longrightarrow> iteration_order it1 \<longrightarrow> iteration_order it2 \<longrightarrow>
            assign_shifts it1 s = assign_shifts it2 s) \<and>
         (valid_plans s \<longrightarrow> assign_runs s r1 \<longrightarrow> assign_runs s r2 \<longrightarrow> r1 = r2) \<and>
         distinct (employees (build init xs)) \<and>
         (distinct (employees s) \<longrightarrow>
            pass1 s (employees s) = spec_pass1 s [] (List.product (employees s) DAYS)) \<and>
         ensure_minimum_coverage s = spec_pass2 s (List.product DAYS SHIFTS) \<and>
         (\<forall>day \<in> set DAYS. \<forall>shift \<in> set SHIFTS.
            find_available s day shift (employees s) =
              (case List.find (eligible s day shift) (employees s) of
                 None \<Rightarrow> Inr None
               | Some e \<Rightarrow>
                   (case place s day shift e of Inl err \<Rightarrow> Inl err | Inr s' \<Rightarrow> Inr (Some s')))) \<and>
         resolve_conflicts it s = spec_pass3 it s (List.enumerate 0 (employees s)) \<and>
         (\<forall>k e plan sd. preferences s e = Some plan \<longrightarrow> collect_days s e DAYS [] = Inr sd \<longrightarrow>
            resolve_employee (it k) s e = resolve_days s e sd (it k (missing_days plan sd)))"
proof (intro conjI impI allI ballI)
  have det: "assign_shifts it1 s = assign_shifts it2 s"
    if v: "valid_plans s" and i1: "iteration_order it1" and i2: "iteration_order it2"
    for it1 it2
  proof (cases "pass1 s (employees s)")
    case (Inl err)
    then show ?thesis by (simp add: assign_shifts_def)
  next
    case (Inr s1)
    note r1 = pass1_reaches[OF assms(1) Inr]
    have w1: "wf_schedule s1" using r1 assms(1) by (rule reaches_wf)
    obtain s2 where 2: "ensure_minimum_coverage s1 = Inr s2"
      using ensure_minimum_coverage_total[OF w1] by blast
    note r2 = ensure_minimum_coverage_reaches[OF w1 2]
    have w2: "wf_schedule s2" using r2 w1 by (rule reaches_wf)
    have "\<forall>e \<in> set (employees s). settled s1 e"
      using assms(1) v Inr by (rule pass1_settled)
    then have "\<forall>e \<in> set (employees s2). settled s2 e"
      using reaches_settled[OF r2] by (simp add: reaches_employees[OF r1] reaches_employees[OF r2])
    then have "resolve_conflicts it1 s2 = resolve_conflicts it2 s2"
      unfolding resolve_conflicts_def by (intro resolve_loop_settled w2 i1 i2)
    then show ?thesis
      by (simp add: assign_shifts_def Inr 2)
  qed
  {
    assume "valid_plans s" "iteration_order it1" "iteration_order it2"
    then show "assign_shifts it1 s = assign_shifts it2 s"
      by (rule det)
  next
    assume "valid_plans s" "assign_runs s r1" "assign_runs s r2"
    then show "r1 = r2"
      unfolding assign_runs_iff using det by blast
  }
next
  show "distinct (employees (build init xs))"
    by (rule distinct_build) (simp add: init_def)
next
  assume "distinct (employees s)"
  then show "pass1 s (employees s) = spec_pass1 s [] (List.product (employees s) DAYS)"
    by (rule pass1_spec) simp
next
  show "ensure_minimum_coverage s = spec_pass2 s (List.product DAYS SHIFTS)"
    by (simp add: ensure_minimum_coverage_def coverage_days_spec)
next
  fix day shift assume "day \<in> set DAYS" "shift \<in> set SHIFTS"
  then show "find_available s day shift (employees s) =
              (case List.find (eligible s day shift) (employees s) of
                 None \<Rightarrow> Inr None
               | Some e \<Rightarrow>
                   (case place s day shift e of Inl err \<Rightarrow> Inl err | Inr s' \<Rightarrow> Inr (Some s')))"
    using assms by (intro find_available_find)
next
  show "resolve_conflicts it s = spec_pass3 it s (List.enumerate 0 (employees s))"
    by (simp add: resolve_conflicts_def resolve_loop_spec)
next
  fix k e plan sd
  assume "preferences s e = Some plan" "collect_days s e DAYS [] = Inr sd"
  then show "resolve_employee (it k) s e = resolve_days s e sd (it k (missing_days plan sd))"
    by (simp add: resolve_employee_def)
qed

theorem determinism_and_visiting_order_witness:
  "wf_schedule scenario_a \<and> valid_plans scenario_a \<and>
   iteration_order plan_order \<and> iteration_order reverse_order \<and>
   distinct (employees scenario_a) \<and>
   assign_shifts plan_order scenario_a = assign_shifts reverse_order scenario_a \<and>
   pass1 scenario_a (employees scenario_a) =
     spec_pass1 scenario_a [] (List.product (employees scenario_a) DAYS) \<and>
   (\<exists>s1. spec_pass1 scenario_a [] (List.product (employees scenario_a) DAYS) = Inr s1 \<and>
      roster s1 ''Monday'' ''Morning'' = [''Alice'', ''Bob'']) \<and>
   (\<exists>s1. spec_pass1 eager [] (List.product (employees eager) DAYS) = Inr s1 \<and>
      roster s1 ''Friday'' ''Morning'' = [''Zoe''] \<and> roster s1 ''Saturday'' ''Morning'' = [])"
proof -
  have i: "iteration_order plan_order" "iteration_order reverse_order"
    by (simp_all add: iteration_order_def enumerates_def plan_order_def reverse_order_def)
  note t = determinism_and_visiting_order[OF wf_scenario_a, of plan_order reverse_order]
  have "case spec_pass1 scenario_a [] (List.product (employees scenario_a) DAYS) of
          Inl _ \<Rightarrow> False | Inr s1 \<Rightarrow> roster s1 ''Monday'' ''Morning'' = [''Alice'', ''Bob'']"
    by code_simp
  then have 1: "\<exists>s1. spec_pass1 scenario_a [] (List.product (employees scenario_a) DAYS) = Inr s1 \<and>
      roster s1 ''Monday'' ''Morning'' = [''Alice'', ''Bob'']"
    by (auto split: sum.splits)
  have "case spec_pass1 eager [] (List.product (employees eager) DAYS) of
          Inl _ \<Rightarrow> False
        | Inr s1 \<Rightarrow> roster s1 ''Friday'' ''Morning'' = [''Zoe''] \<and> roster s1 ''Saturday'' ''Morning'' = []"
    by code_simp
  then have 2: "\<exists>s1. spec_pass1 eager [] (List.product (employees eager) DAYS) = Inr s1 \<and>
      roster s1 ''Friday'' ''Morning'' = [''Zoe''] \<and> roster s1 ''Saturday'' ''Morning'' = []"
    by (auto split: sum.splits)
  show ?thesis
    using t wf_scenario_a valid_plans_scenario_a i distinct_scenario_a 1 2 by blast
qed

text \<open>
  C3 as stated fails: with a plan that maps Monday to the empty sequence, Pass 1 leaves
  the last of seven employees unplaced, Pass 2 gives them two days, and Pass 3 has four
  missing days for three remaining days below the cap. Visiting the set in one order or
  in the reverse order gives different final schedules from the same registration list
  and the same preference dictionaries; both are runs of \<open>assign_runs\<close>.
\<close>

theorem determinism_counterexample:
  "iteration_order plan_order \<and> iteration_order reverse_order \<and>
   final_roster plan_order staff7 ''Tuesday'' ''Morning'' = Inr [''A'', ''B'', ''X''] \<and>
   final_roster reverse_order staff7 ''Tuesday'' ''Morning'' = Inr [''A'', ''B''] \<and>
   assign_runs staff7 (assign_shifts plan_order staff7) \<and>
   assign_runs staff7 (assign_shifts reverse_order staff7) \<and>
   assign_shifts plan_order staff7 \<noteq> assign_shifts reverse_order staff7"
proof -
  have i: "iteration_order plan_order" "iteration_order reverse_order"
    by (simp_all add: iteration_order_def enumerates_def plan_order_def reverse_order_def)
  have 1: "final_roster plan_order staff7 ''Tuesday'' ''Morning'' = Inr [''A'', ''B'', ''X'']"
    by code_simp
  have 2: "final_roster reverse_order staff7 ''Tuesday'' ''Morning'' = Inr [''A'', ''B'']"
    by code_simp
  have "assign_shifts plan_order staff7 \<noteq> assign_shifts reverse_order staff7"
  proof
    assume "assign_shifts plan_order staff7 = assign_shifts reverse_order staff7"
    then have "final_roster plan_order staff7 ''Tuesday'' ''Morning'' =
      final_roster reverse_order staff7 ''Tuesday'' ''Morning''"
      by (simp add: final_roster_def)
    with 1 2 show False by simp
  qed
  moreover have "assign_runs staff7 (assign_shifts plan_order staff7)"
    "assign_runs staff7 (assign_shifts reverse_order staff7)"
    unfolding assign_runs_iff using i by blast+
  ultimately show ?thesis
    using i 1 2 by blast
qed

text \<open>
  C4 (Pass 1 places on the first choice only). When the Pass 1 loop reaches an employee
  below the cap on a day for which the plan holds a non-empty sequence and on which the
  employee is in no shift, the iteration appends the employee to the shift named first in
  the sequence and to no other list, adds 1 to the counter and goes on to the next day.
  The outcome does not depend on the lower-ranked entries of the sequence, nor on how many
  employees the shift already holds.
\<close>

theorem pass1_first_choice:
  assumes "wf_schedule s" "day \<in> set DAYS"
    and "employee_days_worked s e < MAX_DAYS_PER_WEEK"
    and "preferences s e = Some plan" "map_of plan day = Some (first # lower)"
    and "\<not> works_on s e day" "first \<in> set SHIFTS"
  shows "\<exists>s'. pass1_day s e day = Inr (Next, s') \<and> place s day first e = Inr s' \<and>
           (\<forall>d sh. roster s' d sh =
              (if d = day \<and> sh = first then roster s day first @ [e] else roster s d sh)) \<and>
           employee_days_worked s' = (employee_days_worked s)(e := employee_days_worked s e + 1)"
proof -
  obtain s' where pl: "place s day first e = Inr s'"
    using place_ok[OF assms(1,2,7)] by blast
  have "pass1_day s e day = Inr (Next, s')"
    unfolding pass1_day_def
    using assms(3,4,5,6) pl by (simp add: already_scheduled_ok[OF assms(1,2)])
  then show ?thesis
    using pl place_roster[OF pl] place_days_worked[OF pl] by blast
qed

theorem pass1_first_choice_witness:
  "wf_schedule (after_pass1 ranked3 [''Alice'', ''Bob'']) \<and> ''Monday'' \<in> set DAYS \<and>
   employee_days_worked (after_pass1 ranked3 [''Alice'', ''Bob'']) ''Carol'' < MAX_DAYS_PER_WEEK \<and>
   preferences (after_pass1 ranked3 [''Alice'', ''Bob'']) ''Carol'' =
     Some [(''Monday'', [''Morning'', ''Afternoon'', ''Evening''])] \<and>
   map_of [(''Monday'', [''Morning'', ''Afternoon'', ''Evening''])] ''Monday'' =
     Some (''Morning'' # [''Afternoon'', ''Evening'']) \<and>
   \<not> works_on (after_pass1 ranked3 [''Alice'', ''Bob'']) ''Carol'' ''Monday'' \<and>
   ''Morning'' \<in> set SHIFTS \<and>
   (\<exists>s'. pass1_day (after_pass1 ranked3 [''Alice'', ''Bob'']) ''Carol'' ''Monday'' = Inr (Next, s') \<and>
      roster s' ''Monday'' ''Morning'' = [''Alice'', ''Bob'', ''Carol''] \<and>
      roster s' ''Monday'' ''Afternoon'' = [] \<and> roster s' ''Monday'' ''Evening'' = [] \<and>
      employee_days_worked s' ''Carol'' = 1)"
proof -
  let ?s = "after_pass1 ranked3 [''Alice'', ''Bob'']"
  have w: "wf_schedule ?s"
    using wf_ranked3 by (rule wf_after_pass1)
  have d: "''Monday'' \<in> set DAYS" and sh: "''Morning'' \<in> set SHIFTS"
    by (simp_all add: DAYS_def SHIFTS_def)
  have c: "employee_days_worked ?s ''Carol'' < MAX_DAYS_PER_WEEK"
    by code_simp
  have p: "preferences ?s ''Carol'' = Some [(''Monday'', [''Morning'', ''Afternoon'', ''Evening''])]"
    by code_simp
  have m: "map_of [(''Monday'', [''Morning'', ''Afternoon'', ''Evening''])] ''Monday'' =
     Some (''Morning'' # [''Afternoon'', ''Evening''])"
    by simp
  have f: "\<not> works_on ?s ''Carol'' ''Monday''"
    by code_simp
  have r: "roster ?s ''Monday'' ''Morning'' = [''Alice'', ''Bob'']"
    "roster ?s ''Monday'' ''Afternoon'' = []" "roster ?s ''Monday'' ''Evening'' = []"
    "employee_days_worked ?s ''Carol'' = 0"
    by code_simp+
  from pass1_first_choice[OF w d c p m f sh]
  obtain s' where "pass1_day ?s ''Carol'' ''Monday'' = Inr (Next, s')"
    "\<forall>d sh. roster s' d sh =
       (if d = ''Monday'' \<and> sh = ''Morning'' then roster ?s ''Monday'' ''Morning'' @ [''Carol'']
        else roster ?s d sh)"
    "employee_days_worked s' = (employee_days_worked ?s)(''Carol'' := employee_days_worked ?s ''Carol'' + 1)"
    by blast
  then have "pass1_day ?s ''Carol'' ''Monday'' = Inr (Next, s') \<and>
      roster s' ''Monday'' ''Morning'' = [''Alice'', ''Bob'', ''Carol''] \<and>
      roster s' ''Monday'' ''Afternoon'' = [] \<and> roster s' ''Monday'' ''Evening'' = [] \<and>
      employee_days_worked s' ''Carol'' = 1"
    using r by simp
  then show ?thesis
    using w d c p m f sh by blast
qed

text \<open>
  C5 (counter consistency). From a state in which every counter equals the number of days
  on which the employee is listed in some shift, in particular from the empty one, the
  same holds after Pass 1, after Pass 2 and after Pass 3, in whatever order Pass 3 visits
  each employee's set of missing days.
\<close>

theorem counters_consistent_passes:
  assumes "wf_schedule s" "counters_consistent s"
  shows "\<forall>s1. pass1 s (employees s) = Inr s1 \<longrightarrow>
           counters_consistent s1 \<and>
           (\<forall>s2. ensure_minimum_coverage s1 = Inr s2 \<longrightarrow>
              counters_consistent s2 \<and>
              (\<forall>s3. resolve_conflicts it s2 = Inr s3 \<longrightarrow> counters_consistent s3) \<and>
              (\<forall>s3. pass3_runs s2 (employees s2) (Inr s3) \<longrightarrow> counters_consistent s3))"
proof (intro allI impI)
  fix s1 assume 1: "pass1 s (employees s) = Inr s1"
  note r1 = pass1_reaches[OF assms(1) 1]
  have c1: "counters_consistent s1"
    using r1 assms by (rule reaches_counters_consistent)
  have w1: "wf_schedule s1"
    using r1 assms(1) by (rule reaches_wf)
  have rest: "counters_consistent s2 \<and>
      (\<forall>s3. resolve_conflicts it s2 = Inr s3 \<longrightarrow> counters_consistent s3) \<and>
      (\<forall>s3. pass3_runs s2 (employees s2) (Inr s3) \<longrightarrow> counters_consistent s3)"
    if 2: "ensure_minimum_coverage s1 = Inr s2" for s2
  proof -
    note r2 = ensure_minimum_coverage_reaches[OF w1 2]
    have c2: "counters_consistent s2"
      using r2 w1 c1 by (rule reaches_counters_consistent)
    have w2: "wf_schedule s2"
      using r2 w1 by (rule reaches_wf)
    have a: "counters_consistent s3" if "resolve_conflicts it s2 = Inr s3" for s3
      using resolve_conflicts_reaches[OF w2 that] w2 c2 by (rule reaches_counters_consistent)
    have b: "counters_consistent s3" if "pass3_runs s2 (employees s2) (Inr s3)" for s3
      using pass3_runs_reaches[OF w2 that] w2 c2 by (rule reaches_counters_consistent)
    show ?thesis
      using c2 a b by blast
  qed
  show "counters_consistent s1 \<and>
           (\<forall>s2. ensure_minimum_coverage s1 = Inr s2 \<longrightarrow>
              counters_consistent s2 \<and>
              (\<forall>s3. resolve_conflicts it s2 = Inr s3 \<longrightarrow> counters_consistent s3) \<and>
              (\<forall>s3. pass3_runs s2 (employees s2) (Inr s3) \<longrightarrow> counters_consistent s3))"
    using c1 rest by blast
qed

theorem counters_consistent_passes_witness:
  "wf_schedule staff8 \<and> counters_consistent staff8 \<and>
   (\<exists>s1 s2 s3. pass1 staff8 (employees staff8) = Inr s1 \<and>
      ensure_minimum_coverage s1 = Inr s2 \<and> resolve_conflicts by_turns s2 = Inr s3 \<and>
      pass3_runs s2 (employees s2) (Inr s3) \<and>
      counters_consistent s1 \<and> counters_consistent s2 \<and> counters_consistent s3)"
proof -
  have c: "counters_consistent staff8"
    unfolding staff8_def by (rule counters_consistent_init)
  obtain s1 s2 s3 where "pass1 staff8 (employees staff8) = Inr s1"
    "ensure_minimum_coverage s1 = Inr s2" "resolve_conflicts by_turns s2 = Inr s3"
    by (rule staff8_passes)
  moreover from this have "pass3_runs s2 (employees s2) (Inr s3)"
    unfolding pass3_runs_iff using iteration_order_by_turns by blast
  moreover note counters_consistent_passes[OF wf_staff8 c, of by_turns] wf_staff8 c
  ultimately show ?thesis
    by blast
qed

text \<open>
  C6 (Pass 2 backfill). Pass 2 is the sweep over the slots, day by day in calendar order
  and the three shifts of a day in their fixed order, that runs the while loop on each
  slot, started with the length of the slot. The loop does nothing once the count has
  reached \<open>MIN_EMPLOYEES_PER_SHIFT\<close>. Below it, the scan looks for the first employee
  in registration order who is below the cap, in no shift of that day and not in the
  slot: when there is none the loop stops and leaves the state as it is; when there is
  one, that employee is appended to the slot, the counter grows by 1 and the loop goes on
  with the count increased. The loop always returns a state, never an error; started
  with the length of the slot, it ends with the slot at the minimum or with no eligible
  employee left. The pass returns a state as well, and in that state every slot of the
  grid is at the minimum or has no eligible employee.
\<close>

theorem backfill_behaviour:
  assumes "wf_schedule s" "day \<in> set DAYS" "shift \<in> set SHIFTS"
  shows "(MIN_EMPLOYEES_PER_SHIFT \<le> c \<longrightarrow> backfill s day shift c = Inr s) \<and>
         (c < MIN_EMPLOYEES_PER_SHIFT \<longrightarrow>
            List.find (eligible s day shift) (employees s) = None \<longrightarrow>
            backfill s day shift c = Inr s) \<and>
         (\<forall>e. c < MIN_EMPLOYEES_PER_SHIFT \<longrightarrow>
            List.find (eligible s day shift) (employees s) = Some e \<longrightarrow>
            (\<exists>s'. place s day shift e = Inr s' \<and>
               roster s' day shift = roster s day shift @ [e] \<and>
               employee_days_worked s' e = employee_days_worked s e + 1 \<and>
               backfill s day shift c = backfill s' day shift (c + 1))) \<and>
         (\<exists>s'. backfill s day shift c = Inr s') \<and>
         (\<forall>s'. backfill s day shift (int (length (roster s day shift))) = Inr s' \<longrightarrow>
            MIN_EMPLOYEES_PER_SHIFT \<le> int (length (roster s' day shift)) \<or>
            List.find (eligible s' day shift) (employees s') = None) \<and>
         (\<exists>s'. ensure_minimum_coverage s = Inr s') \<and>
         find_available s day shift es =
           (case List.find (eligible s day shift) es of
              None \<Rightarrow> Inr None
            | Some e \<Rightarrow> (case place s day shift e of Inl err \<Rightarrow> Inl err | Inr s' \<Rightarrow> Inr (Some s'))) \<and>
         ensure_minimum_coverage s = spec_pass2 s (List.product DAYS SHIFTS) \<and>
         (\<forall>s'. ensure_minimum_coverage s = Inr s' \<longrightarrow>
            (\<forall>d \<in> set DAYS. \<forall>sh \<in> set SHIFTS. saturated s' d sh))"
proof (intro conjI allI impI)
  note unf = backfill.simps[of s day shift c]
  note ff = find_available_find[OF assms, of "employees s"]
  show "backfill s day shift c = Inr s" if "MIN_EMPLOYEES_PER_SHIFT \<le> c"
    using that by (simp add: unf)
  show "backfill s day shift c = Inr s"
    if "c < MIN_EMPLOYEES_PER_SHIFT" "List.find (eligible s day shift) (employees s) = None"
    using that by (simp add: unf ff)
  show "\<exists>s'. place s day shift e = Inr s' \<and>
               roster s' day shift = roster s day shift @ [e] \<and>
               employee_days_worked s' e = employee_days_worked s e + 1 \<and>
               backfill s day shift c = backfill s' day shift (c + 1)"
    if "c < MIN_EMPLOYEES_PER_SHIFT" "List.find (eligible s day shift) (employees s) = Some e" for e
  proof -
    obtain t where pl: "place s day shift e = Inr t"
      using place_ok[OF assms] by blast
    then show ?thesis
      using that by (auto simp: unf ff place_roster[OF pl] place_days_worked[OF pl])
  qed
  show "\<exists>s'. backfill s day shift c = Inr s'"
    using assms by (rule backfill_total)
  show "MIN_EMPLOYEES_PER_SHIFT \<le> int (length (roster s' day shift)) \<or>
            List.find (eligible s' day shift) (employees s') = None"
    if "backfill s day shift (int (length (roster s day shift))) = Inr s'" for s'
    using backfill_post[OF assms refl that] .
  show "\<exists>s'. ensure_minimum_coverage s = Inr s'"
    using assms(1) by (rule ensure_minimum_coverage_total)
  show "find_available s day shift es =
           (case List.find (eligible s day shift) es of
              None \<Rightarrow> Inr None
            | Some e \<Rightarrow> (case place s day shift e of Inl err \<Rightarrow> Inl err | Inr s' \<Rightarrow> Inr (Some s')))"
    using assms by (rule find_available_find)
  show "ensure_minimum_coverage s = spec_pass2 s (List.product DAYS SHIFTS)"
    by (simp add: ensure_minimum_coverage_def coverage_days_spec)
  show "\<forall>d \<in> set DAYS. \<forall>sh \<in> set SHIFTS. saturated s' d sh"
    if "ensure_minimum_coverage s = Inr s'" for s'
    using assms(1) that by (rule ensure_minimum_coverage_saturated)
qed

theorem backfill_behaviour_witness:
  "wf_schedule scenario_a \<and> ''Monday'' \<in> set DAYS \<and> ''Morning'' \<in> set SHIFTS \<and>
   0 < MIN_EMPLOYEES_PER_SHIFT \<and> MIN_EMPLOYEES_PER_SHIFT \<le> 2 \<and>
   List.find (eligible scenario_a ''Monday'' ''Morning'') (employees scenario_a) = Some ''Alice'' \<and>
   (\<exists>s'. place scenario_a ''Monday'' ''Morning'' ''Alice'' = Inr s' \<and>
      roster s' ''Monday'' ''Morning'' = [''Alice''] \<and>
      backfill scenario_a ''Monday'' ''Morning'' 0 = backfill s' ''Monday'' ''Morning'' (0 + 1)) \<and>
   backfill scenario_a ''Monday'' ''Morning'' 2 = Inr scenario_a \<and>
   (\<exists>s'. ensure_minimum_coverage scenario_a = Inr s' \<and>
      spec_pass2 scenario_a (List.product DAYS SHIFTS) = Inr s' \<and>
      roster s' ''Monday'' ''Morning'' = [''Alice'', ''Bob''] \<and>
      roster s' ''Monday'' ''Afternoon'' = [] \<and>
      roster s' ''Friday'' ''Morning'' = [''Alice'', ''Bob''] \<and>
      roster s' ''Saturday'' ''Morning'' = [] \<and>
      saturated s' ''Monday'' ''Afternoon'' \<and> saturated s' ''Saturday'' ''Morning'') \<and>
   wf_schedule init \<and>
   List.find (eligible init ''Monday'' ''Morning'') (employees init) = None \<and>
   backfill init ''Monday'' ''Morning'' 0 = Inr init"
proof -
  have d: "''Monday'' \<in> set DAYS" and sh: "''Morning'' \<in> set SHIFTS"
    and d2: "''Saturday'' \<in> set DAYS" and sh2: "''Afternoon'' \<in> set SHIFTS"
    by (simp_all add: DAYS_def SHIFTS_def)
  have lo: "0 < MIN_EMPLOYEES_PER_SHIFT" and hi: "MIN_EMPLOYEES_PER_SHIFT \<le> 2"
    by (simp_all add: MIN_EMPLOYEES_PER_SHIFT_def)
  have f: "List.find (eligible scenario_a ''Monday'' ''Morning'') (employees scenario_a) = Some ''Alice''"
    by code_simp
  have r: "roster scenario_a ''Monday'' ''Morning'' = []"
    unfolding scenario_a_def by (simp only: roster_build roster_init)
  have n: "List.find (eligible init ''Monday'' ''Morning'') (employees init) = None"
    by (simp add: init_def)
  note a = backfill_behaviour[OF wf_scenario_a d sh, of _ "employees scenario_a"]
  note b = backfill_behaviour[OF wf_init d sh, of 0 "employees init"]
  have 1: "\<exists>s'. place scenario_a ''Monday'' ''Morning'' ''Alice'' = Inr s' \<and>
      roster s' ''Monday'' ''Morning'' = [''Alice''] \<and>
      backfill scenario_a ''Monday'' ''Morning'' 0 = backfill s' ''Monday'' ''Morning'' (0 + 1)"
    using a[of 0] lo f r by auto
  have 2: "backfill scenario_a ''Monday'' ''Morning'' 2 = Inr scenario_a"
    using a[of 2] hi by blast
  have "case ensure_minimum_coverage scenario_a of
          Inl _ \<Rightarrow> False
        | Inr s' \<Rightarrow> roster s' ''Monday'' ''Morning'' = [''Alice'', ''Bob''] \<and>
            roster s' ''Monday'' ''Afternoon'' = [] \<and>
            roster s' ''Friday'' ''Morning'' = [''Alice'', ''Bob''] \<and>
            roster s' ''Saturday'' ''Morning'' = []"
    by code_simp
  then obtain s' where e: "ensure_minimum_coverage scenario_a = Inr s'"
    and rs: "roster s' ''Monday'' ''Morning'' = [''Alice'', ''Bob'']"
      "roster s' ''Monday'' ''Afternoon'' = []"
      "roster s' ''Friday'' ''Morning'' = [''Alice'', ''Bob'']"
      "roster s' ''Saturday'' ''Morning'' = []"
    by (auto split: sum.splits)
  have sp: "spec_pass2 scenario_a (List.product DAYS SHIFTS) = Inr s'"
    using a[of 0] e by simp
  have sat: "saturated s' ''Monday'' ''Afternoon''" "saturated s' ''Saturday'' ''Morning''"
    using a[of 0] e d d2 sh sh2 by blast+
  have 3: "\<exists>s'. ensure_minimum_coverage scenario_a = Inr s' \<and>
      spec_pass2 scenario_a (List.product DAYS SHIFTS) = Inr s' \<and>
      roster s' ''Monday'' ''Morning'' = [''Alice'', ''Bob''] \<and>
      roster s' ''Monday'' ''Afternoon'' = [] \<and>
      roster s' ''Friday'' ''Morning'' = [''Alice'', ''Bob''] \<and>
      roster s' ''Saturday'' ''Morning'' = [] \<and>
      saturated s' ''Monday'' ''Afternoon'' \<and> saturated s' ''Saturday'' ''Morning''"
    using e sp rs sat by blast
  have 4: "backfill init ''Monday'' ''Morning'' 0 = Inr init"
    using b lo n by blast
  show ?thesis
    using wf_scenario_a d sh lo hi f 1 2 3 wf_init n 4 by blast
qed

text \<open>
  C7 (append-only). A freshly built scheduler has empty shift lists and zero counters.
  Each pass only appends: after it, every shift list has the list before the pass as a
  prefix, and no counter is smaller than before, in whatever order Pass 3 visits each
  employee's set of missing days.
\<close>

theorem append_only:
  assumes "wf_schedule s"
  shows "(\<forall>day shift. roster (build init xs) day shift = []) \<and>
         (\<forall>e. employee_days_worked (build init xs) e = 0) \<and>
         (\<forall>s1. pass1 s (employees s) = Inr s1 \<longrightarrow>
            grows s s1 \<and>
            (\<forall>s2. ensure_minimum_coverage s1 = Inr s2 \<longrightarrow>
               grows s1 s2 \<and>
               (\<forall>s3. resolve_conflicts it s2 = Inr s3 \<longrightarrow> grows s2 s3) \<and>
               (\<forall>s3. pass3_runs s2 (employees s2) (Inr s3) \<longrightarrow> grows s2 s3)))"
proof (intro conjI allI impI)
  fix day shift show "roster (build init xs) day shift = []"
    by (simp add: roster_build roster_init)
next
  fix e show "employee_days_worked (build init xs) e = 0"
    by (simp add: days_worked_build) (simp add: init_def)
next
  fix s1 assume 1: "pass1 s (employees s) = Inr s1"
  note r1 = pass1_reaches[OF assms(1) 1]
  show "grows s s1"
    using r1 by (rule reaches_grows)
next
  fix s1 s2 assume 1: "pass1 s (employees s) = Inr s1" and 2: "ensure_minimum_coverage s1 = Inr s2"
  have w1: "wf_schedule s1"
    using pass1_reaches[OF assms(1) 1] assms(1) by (rule reaches_wf)
  show "grows s1 s2"
    using ensure_minimum_coverage_reaches[OF w1 2] by (rule reaches_grows)
next
  fix s1 s2 s3 assume 1: "pass1 s (employees s) = Inr s1"
    and 2: "ensure_minimum_coverage s1 = Inr s2" and 3: "resolve_conflicts it s2 = Inr s3"
  have w1: "wf_schedule s1"
    using pass1_reaches[OF assms(1) 1] assms(1) by (rule reaches_wf)
  have w2: "wf_schedule s2"
    using ensure_minimum_coverage_reaches[OF w1 2] w1 by (rule reaches_wf)
  show "grows s2 s3"
    using resolve_conflicts_reaches[OF w2 3] by (rule reaches_grows)
next
  fix s1 s2 s3 assume 1: "pass1 s (employees s) = Inr s1"
    and 2: "ensure_minimum_coverage s1 = Inr s2" and 3: "pass3_runs s2 (employees s2) (Inr s3)"
  have w1: "wf_schedule s1"
    using pass1_reaches[OF assms(1) 1] assms(1) by (rule reaches_wf)
  have w2: "wf_schedule s2"
    using ensure_minimum_coverage_reaches[OF w1 2] w1 by (rule reaches_wf)
  show "grows s2 s3"
    using pass3_runs_reaches[OF w2 3] by (rule reaches_grows)
qed

theorem append_only_witness:
  "wf_schedule staff8 \<and>
   (\<exists>s1 s2 s3. pass1 staff8 (employees staff8) = Inr s1 \<and>
      ensure_minimum_coverage s1 = Inr s2 \<and> resolve_conflicts by_turns s2 = Inr s3 \<and>
      pass3_runs s2 (employees s2) (Inr s3) \<and>
      grows staff8 s1 \<and> grows s1 s2 \<and> grows s2 s3)"
proof -
  obtain s1 s2 s3 where "pass1 staff8 (employees staff8) = Inr s1"
    "ensure_minimum_coverage s1 = Inr s2" "resolve_conflicts by_turns s2 = Inr s3"
    by (rule staff8_passes)
  moreover from this have "pass3_runs s2 (employees s2) (Inr s3)"
    unfolding pass3_runs_iff using iteration_order_by_turns by blast
  moreover note append_only[OF wf_staff8, of "[]" by_turns] wf_staff8
  ultimately show ?thesis
    by blast
qed

text \<open>
  C8 (empty preference sequence). When the Pass 1 loop reaches an employee below the cap on
  a day that the plan maps to the empty sequence, and the employee is in no shift that
  day, the iteration breaks: the loop over the remaining days ends at once and leaves the
  state as it was, whatever the plan says about the later days.
\<close>

theorem empty_preference_breaks:
  assumes "wf_schedule s" "day \<in> set DAYS"
    and "employee_days_worked s e < MAX_DAYS_PER_WEEK"
    and "preferences s e = Some plan" "map_of plan day = Some []"
    and "\<not> works_on s e day"
  shows "pass1_day s e day = Inr (Break, s) \<and> pass1_days s e (day # days) = Inr s"
proof -
  have "pass1_day s e day = Inr (Break, s)"
    unfolding pass1_day_def
    using assms(3,4,5,6) by (simp add: already_scheduled_ok[OF assms(1,2)])
  then show ?thesis by simp
qed

theorem empty_preference_breaks_witness:
  "wf_schedule staff7 \<and> ''Monday'' \<in> set DAYS \<and>
   employee_days_worked staff7 ''X'' < MAX_DAYS_PER_WEEK \<and>
   preferences staff7 ''X'' = Some ((''Monday'', []) # week ''Morning'') \<and>
   map_of ((''Monday'', []) # week ''Morning'') ''Monday'' = Some [] \<and>
   map_of ((''Monday'', []) # week ''Morning'') ''Tuesday'' = Some [''Morning''] \<and>
   \<not> works_on staff7 ''X'' ''Monday'' \<and>
   pass1_day staff7 ''X'' ''Monday'' = Inr (Break, staff7) \<and>
   pass1_days staff7 ''X''
     (''Monday'' # [''Tuesday'', ''Wednesday'', ''Thursday'', ''Friday'', ''Saturday'', ''Sunday'']) =
     Inr staff7"
proof -
  have d: "''Monday'' \<in> set DAYS"
    by (simp add: DAYS_def)
  have c: "employee_days_worked staff7 ''X'' < MAX_DAYS_PER_WEEK"
    by code_simp
  have p: "preferences staff7 ''X'' = Some ((''Monday'', []) # week ''Morning'')"
    by code_simp
  have m: "map_of ((''Monday'', []) # week ''Morning'') ''Monday'' = Some []"
    by simp
  have m2: "map_of ((''Monday'', []) # week ''Morning'') ''Tuesday'' = Some [''Morning'']"
    by (simp add: week_def)
  have f: "\<not> works_on staff7 ''X'' ''Monday''"
    by code_simp
  show ?thesis
    using empty_preference_breaks[OF wf_staff7 d c p m f,
        of "[''Tuesday'', ''Wednesday'', ''Thursday'', ''Friday'', ''Saturday'', ''Sunday'']"]
      wf_staff7 d c p m m2 f
    by blast
qed

text \<open>
  C9 (no lookup of an unregistered employee). In a scheduler built by \<open>__init__\<close>
  and any sequence of \<open>add_employee\<close> calls, every name of the employee list has an
  entry in \<open>preferences\<close>; neither Pass 1, Pass 2, Pass 3 nor \<open>assign_shifts\<close> as a
  whole fails on the lookup \<open>self.preferences[employee]\<close>, in whatever order Pass 3
  visits each employee's set of missing days.
\<close>

theorem unknown_employee_unreachable:
  "registered (build init xs) \<and>
   (\<forall>x. pass1 (build init xs) (employees (build init xs)) \<noteq> Inl (UnknownEmployee x)) \<and>
   (\<forall>x. ensure_minimum_coverage (build init xs) \<noteq> Inl (UnknownEmployee x)) \<and>
   (\<forall>x. resolve_conflicts it (build init xs) \<noteq> Inl (UnknownEmployee x)) \<and>
   (\<forall>x. assign_shifts it (build init xs) \<noteq> Inl (UnknownEmployee x)) \<and>
   (\<forall>x. \<not> pass3_runs (build init xs) (employees (build init xs)) (Inl (UnknownEmployee x))) \<and>
   (\<forall>x. \<not> assign_runs (build init xs) (Inl (UnknownEmployee x)))"
proof -
  have w: "wf_schedule (build init xs)"
    by (simp add: wf_build wf_init)
  have r: "registered (build init xs)"
    using registered_init by (rule registered_build)
  have 1: "pass1 (build init xs) (employees (build init xs)) \<noteq> Inl (UnknownEmployee x)" for x
    using r unfolding registered_def by (intro pass1_known w)
  have 2: "ensure_minimum_coverage (build init xs) \<noteq> Inl (UnknownEmployee x)" for x
    using ensure_minimum_coverage_total[OF w] by auto
  have 3: "resolve_conflicts it' (build init xs) \<noteq> Inl (UnknownEmployee x)" for x it'
    using r unfolding resolve_conflicts_def registered_def by (intro resolve_loop_known w)
  have 4: "assign_shifts it' (build init xs) \<noteq> Inl (UnknownEmployee x)" for x it'
    using w r by (rule assign_shifts_known)
  have 5: "\<not> pass3_runs (build init xs) (employees (build init xs)) (Inl (UnknownEmployee x))" for x
    using 3 unfolding pass3_runs_iff by blast
  have 6: "\<not> assign_runs (build init xs) (Inl (UnknownEmployee x))" for x
    using 4 unfolding assign_runs_iff by blast
  show ?thesis
    using r 1 2 3 4 5 6 by blast
qed

theorem unknown_employee_unreachable_witness:
  "registered staff8 \<and>
   pass1 staff8 (employees staff8) \<noteq> Inl (UnknownEmployee ''A'') \<and>
   ensure_minimum_coverage staff8 \<noteq> Inl (UnknownEmployee ''A'') \<and>
   resolve_conflicts by_turns staff8 \<noteq> Inl (UnknownEmployee ''X'') \<and>
   assign_shifts by_turns staff8 \<noteq> Inl (UnknownEmployee ''Y'')"
  using unknown_employee_unreachable[of
      "[(''A'', week ''Morning''), (''B'', week ''Morning''),
        (''C'', week ''Afternoon''), (''D'', week ''Afternoon''),
        (''E'', week ''Evening''), (''F'', week ''Evening''),
        (''X'', (''Monday'', []) # week ''Morning''),
        (''Y'', (''Monday'', []) # week ''Morning'')]" by_turns]
  unfolding staff8_def by blast

text \<open>
  C10 (Pass 3 assigns on preferred days only). Every day of \<open>missing_days\<close>, in
  whatever order the set is iterated, is a key of the employee's plan, so
  \<open>self.preferences[employee].get(day, self.SHIFTS)\<close> returns the plan's own sequence and
  never the default list. Whoever is in a shift list after Pass 3 and was not in it
  before has that day in their plan; this holds for every family of orders and for every
  run of \<open>pass3_runs\<close>.
\<close>

theorem pass3_only_preferred_days:
  assumes "wf_schedule s" "iteration_order it"
  shows "(\<forall>k e plan sd day. preferences s e = Some plan \<longrightarrow>
            day \<in> set (it k (missing_days plan sd)) \<longrightarrow>
            (\<exists>shifts. map_of plan day = Some shifts \<and> priority_shifts s e day = Inr shifts)) \<and>
         (\<forall>s'. resolve_conflicts it s = Inr s' \<longrightarrow>
            (\<forall>e day shift. e \<in> set (roster s' day shift) \<longrightarrow>
               e \<in> set (roster s day shift) \<or>
               (\<exists>plan. preferences s e = Some plan \<and> map_of plan day \<noteq> None))) \<and>
         (\<forall>s'. pass3_runs s (employees s) (Inr s') \<longrightarrow>
            (\<forall>e day shift. e \<in> set (roster s' day shift) \<longrightarrow>
               e \<in> set (roster s day shift) \<or>
               (\<exists>plan. preferences s e = Some plan \<and> map_of plan day \<noteq> None)))"
proof (intro conjI allI impI)
  fix k e plan sd day
  assume "preferences s e = Some plan" "day \<in> set (it k (missing_days plan sd))"
  then show "\<exists>shifts. map_of plan day = Some shifts \<and> priority_shifts s e day = Inr shifts"
    using missing_days_keys[of day plan sd]
    by (auto simp: enumerates_set[OF iteration_order_enumerates[OF assms(2)]] priority_shifts_def)
next
  fix s' e day shift
  assume "resolve_conflicts it s = Inr s'" "e \<in> set (roster s' day shift)"
  then show "e \<in> set (roster s day shift) \<or>
               (\<exists>plan. preferences s e = Some plan \<and> map_of plan day \<noteq> None)"
    using resolve_loop_only_planned[OF assms, of 0 "employees s" s']
    unfolding resolve_conflicts_def only_planned_def by blast
next
  fix s' e day shift
  assume run: "pass3_runs s (employees s) (Inr s')" and e: "e \<in> set (roster s' day shift)"
  from run obtain it' where i: "iteration_order it'" and r: "resolve_conflicts it' s = Inr s'"
    unfolding pass3_runs_iff by blast
  show "e \<in> set (roster s day shift) \<or>
               (\<exists>plan. preferences s e = Some plan \<and> map_of plan day \<noteq> None)"
    using resolve_loop_only_planned[OF assms(1) i, of 0 "employees s" s'] r e
    unfolding resolve_conflicts_def only_planned_def by blast
qed

theorem pass3_only_preferred_days_witness:
  "wf_schedule (before_pass3 staff8) \<and> iteration_order by_turns \<and>
   preferences (before_pass3 staff8) ''Y'' = Some ((''Monday'', []) # week ''Morning'') \<and>
   by_turns 6 (missing_days ((''Monday'', []) # week ''Morning'') [''Saturday'', ''Sunday'']) =
     [''Monday'', ''Tuesday'', ''Wednesday'', ''Thursday'', ''Friday''] \<and>
   by_turns 7 (missing_days ((''Monday'', []) # week ''Morning'') [''Saturday'', ''Sunday'']) =
     [''Friday'', ''Thursday'', ''Wednesday'', ''Tuesday'', ''Monday''] \<and>
   priority_shifts (before_pass3 staff8) ''Y'' ''Friday'' = Inr [''Morning''] \<and>
   (\<exists>s'. resolve_conflicts by_turns (before_pass3 staff8) = Inr s' \<and>
      roster s' ''Tuesday'' ''Morning'' = [''A'', ''B'', ''X''] \<and>
      roster s' ''Friday'' ''Morning'' = [''A'', ''B'', ''Y''] \<and>
      ''Y'' \<notin> set (roster (before_pass3 staff8) ''Friday'' ''Morning'') \<and>
      map_of ((''Monday'', []) # week ''Morning'') ''Friday'' \<noteq> None)"
proof -
  let ?s = "before_pass3 staff8"
  let ?plan = "(''Monday'', []) # week ''Morning''"
  have w: "wf_schedule ?s"
    using wf_staff8 by (rule wf_before_pass3)
  note i = iteration_order_by_turns
  note t = pass3_only_preferred_days[OF w i]
  have p: "preferences ?s ''Y'' = Some ?plan"
    by code_simp
  have m6: "by_turns 6 (missing_days ?plan [''Saturday'', ''Sunday'']) =
     [''Monday'', ''Tuesday'', ''Wednesday'', ''Thursday'', ''Friday'']"
    by (simp add: missing_days_def week_def by_turns_def)
  have m7: "by_turns 7 (missing_days ?plan [''Saturday'', ''Sunday'']) =
     [''Friday'', ''Thursday'', ''Wednesday'', ''Tuesday'', ''Monday'']"
    by (simp add: missing_days_def week_def by_turns_def)
  have m: "''Friday'' \<in> set (by_turns 7 (missing_days ?plan [''Saturday'', ''Sunday'']))"
    unfolding m7 by simp
  from t p m obtain shifts where
    "map_of ?plan ''Friday'' = Some shifts" "priority_shifts ?s ''Y'' ''Friday'' = Inr shifts"
    by blast
  then have ps: "priority_shifts ?s ''Y'' ''Friday'' = Inr [''Morning'']"
    by (simp add: week_def)
  have "case resolve_conflicts by_turns ?s of
          Inl _ \<Rightarrow> False
        | Inr s' \<Rightarrow> roster s' ''Tuesday'' ''Morning'' = [''A'', ''B'', ''X''] \<and>
            roster s' ''Friday'' ''Morning'' = [''A'', ''B'', ''Y'']"
    by code_simp
  then obtain s' where r: "resolve_conflicts by_turns ?s = Inr s'"
    and r1: "roster s' ''Tuesday'' ''Morning'' = [''A'', ''B'', ''X'']"
    and r2: "roster s' ''Friday'' ''Morning'' = [''A'', ''B'', ''Y'']"
    by (auto split: sum.splits)
  have n: "''Y'' \<notin> set (roster ?s ''Friday'' ''Morning'')"
    by code_simp
  have y: "''Y'' \<in> set (roster s' ''Friday'' ''Morning'')"
    unfolding r2 by simp
  from t r y n obtain plan where a: "preferences ?s ''Y'' = Some plan"
    and b: "map_of plan ''Friday'' \<noteq> None"
    by blast
  have e: "plan = ?plan"
    using a p by simp
  have "map_of ?plan ''Friday'' \<noteq> None"
    using b unfolding e .
  then show ?thesis
    using w i p m6 m7 ps r r1 r2 n by blast
qed

end
